theory Spec2Isabelle
  imports Complex_Main "HOL-Library.Word"
begin

section \<open>Pixel classifier of process\_cat.py\<close>

text \<open>
  In process\_cat.py the pixels come from PIL's pixel access object, so the channels are
  Python integers and nothing wraps around. The brightness \<open>(r + g + b) / 3\<close> is a float
  division in the source; it is modelled by exact rational arithmetic, which gives the
  same comparison with 180 for every integer sum (the sum 540 gives exactly 180.0).
\<close>

type_synonym rgb = "int \<times> int \<times> int"

text \<open>The loop over \<open>background_colors\<close> with its early \<open>return True\<close>.\<close>

fun near_known_color :: "int \<Rightarrow> int \<Rightarrow> int \<Rightarrow> int \<Rightarrow> rgb list \<Rightarrow> bool" where
  "near_known_color r g b tolerance [] = False"
| "near_known_color r g b tolerance ((bg_r, bg_g, bg_b) # rest) =
     (if \<bar>r - bg_r\<bar> < tolerance \<and> \<bar>g - bg_g\<bar> < tolerance \<and> \<bar>b - bg_b\<bar> < tolerance
      then True
      else near_known_color r g b tolerance rest)"

definition near_white_gray :: "int \<Rightarrow> int \<Rightarrow> int \<Rightarrow> bool" where
  "near_white_gray r g b =
     (r > 200 \<and> g > 200 \<and> b > 200 \<and> max (max \<bar>r - g\<bar> \<bar>g - b\<bar>) \<bar>r - b\<bar> < 30)"

definition brightness :: "int \<Rightarrow> int \<Rightarrow> int \<Rightarrow> rat" where
  "brightness r g b = of_int (r + g + b) / 3"

definition is_background_pixel :: "int \<Rightarrow> int \<Rightarrow> int \<Rightarrow> rgb list \<Rightarrow> int \<Rightarrow> bool" where
  "is_background_pixel r g b background_colors tolerance =
     (if near_known_color r g b tolerance background_colors then True
      else if near_white_gray r g b then True
      else if brightness r g b > 180 then True
      else False)"

text \<open>
  The classifier with two rules only, as the claim words it: within the tolerance per
  channel of some background colour, or average brightness above 180.
\<close>

definition two_rule_classifier :: "int \<Rightarrow> int \<Rightarrow> int \<Rightarrow> rgb list \<Rightarrow> int \<Rightarrow> bool" where
  "two_rule_classifier r g b background_colors tolerance =
     ((\<exists>(bg_r, bg_g, bg_b) \<in> set background_colors.
          \<bar>r - bg_r\<bar> < tolerance \<and> \<bar>g - bg_g\<bar> < tolerance \<and> \<bar>b - bg_b\<bar> < tolerance)
      \<or> brightness r g b > 180)"

section \<open>Images\<close>

text \<open>
  An image is a fixed-shape buffer of pixels: its shape and a store from coordinates to
  pixels. Neither NumPy nor PIL can change the shape of a buffer by assigning to an
  element, and every access of the source lies inside the shape (the loops run over
  \<open>range(height)\<close> and \<open>range(width)\<close>, or check the bounds first); where that has to be
  established, the model checks the bounds itself and raises.

  A NumPy array \<open>a\<close> of shape \<open>(height, width, 4)\<close> is indexed \<open>a[i, j]\<close> with the row
  first, a PIL pixel access object \<open>pixels[x, y]\<close> with the column first; the store of
  the model takes the pair in the order of the library in question.
\<close>

datatype py_error = IndexError | ZeroDivisionError

record 'p image =
  height :: nat
  width :: nat
  pix :: "nat \<times> nat \<Rightarrow> 'p"

text \<open>All index pairs \<open>(i, j)\<close> of \<open>for i in range(h): for j in range(w)\<close>, in loop order.\<close>

definition cells :: "nat \<Rightarrow> nat \<Rightarrow> (nat \<times> nat) list" where
  "cells h w = concat (map (\<lambda>i. map (\<lambda>j. (i, j)) [0..<w]) [0..<h])"

text \<open>\<open>range(0, n, 2)\<close>.\<close>

definition range_step2 :: "nat \<Rightarrow> nat list" where
  "range_step2 n = map (\<lambda>k. 2 * k) [0..<(n + 1) div 2]"

text \<open>An image filled with one pixel value.\<close>

definition uniform :: "nat \<Rightarrow> nat \<Rightarrow> 'p \<Rightarrow> 'p image" where
  "uniform h w p = \<lparr>height = h, width = w, pix = (\<lambda>c. p)\<rparr>"

section \<open>Floating-point numbers\<close>

text \<open>
  Python's floats and NumPy's float64 are IEEE 754 binary64 numbers, and every arithmetic
  operation on them returns the exact result rounded to the nearest such number, ties to
  the even mantissa. A float is modelled by the rational number that it is, and an
  operation by the exact operation followed by \<open>round_double\<close>, which scales its
  argument by powers of two into \<open>[1/2, 1)\<close> and rounds the mantissa to 53 bits. The
  exponent range of binary64 is not modelled: the numbers that occur here are ratios of
  pixel counts, brightnesses below 256 and their differences.
\<close>

definition round_half_even :: "rat \<Rightarrow> int" where
  "round_half_even x =
     (let f = \<lfloor>x\<rfloor>; r = x - of_int f
      in if r < 1 / 2 then f
         else if 1 / 2 < r then f + 1
         else if even f then f else f + 1)"

definition double_measure :: "rat \<Rightarrow> nat" where
  "double_measure q =
     (let p = \<bar>q\<bar>
      in (if q < 0 then 1 else 0)
         + (if 1 \<le> p then 1 + nat \<lceil>p\<rceil>
            else if 0 < p \<and> p < 1 / 2 then nat \<lfloor>1 / p\<rfloor>
            else 0))"

lemma double_measure_neg: "q < 0 \<Longrightarrow> double_measure (- q) < double_measure q"
  by (simp add: double_measure_def Let_def)

lemma double_measure_half:
  assumes "1 \<le> q"
  shows "double_measure (q / 2) < double_measure q"
proof (cases "2 \<le> q")
  case True
  then have "\<lceil>q / 2\<rceil> < \<lceil>q\<rceil>" by linarith
  moreover have "0 < \<lceil>q\<rceil>" using assms by linarith
  ultimately show ?thesis
    using True assms by (simp add: double_measure_def Let_def)
next
  case False
  with assms show ?thesis by (simp add: double_measure_def Let_def)
qed

lemma double_measure_twice:
  assumes "0 < q" "q < 1 / 2"
  shows "double_measure (2 * q) < double_measure q"
proof (cases "2 * q < 1 / 2")
  case True
  have "2 < 1 / q" using assms by (simp add: field_simps)
  have "1 / (2 * q) = (1 / q) / 2" by simp
  then have "\<lfloor>1 / (2 * q)\<rfloor> < \<lfloor>1 / q\<rfloor>" using \<open>2 < 1 / q\<close> by linarith
  moreover have "0 < \<lfloor>1 / q\<rfloor>" using \<open>2 < 1 / q\<close> by linarith
  ultimately show ?thesis
    using True assms by (simp add: double_measure_def Let_def)
next
  case False
  have "2 < 1 / q" using assms by (simp add: field_simps)
  then have "0 < \<lfloor>1 / q\<rfloor>" by linarith
  with False assms show ?thesis by (simp add: double_measure_def Let_def)
qed

function round_double :: "rat \<Rightarrow> rat" where
  "round_double q =
     (if q < 0 then - round_double (- q)
      else if q = 0 then 0
      else if 1 \<le> q then 2 * round_double (q / 2)
      else if q < 1 / 2 then round_double (2 * q) / 2
      else of_int (round_half_even (q * 2 ^ 53)) / 2 ^ 53)"
  by pat_completeness auto

termination
proof (relation "measure double_measure")
  show "wf (measure double_measure)" by simp
next
  fix q :: rat assume "q < 0"
  then show "(- q, q) \<in> measure double_measure" by (simp add: double_measure_neg)
next
  fix q :: rat assume "\<not> q < 0" "q \<noteq> 0" "1 \<le> q"
  then show "(q / 2, q) \<in> measure double_measure" by (simp add: double_measure_half)
next
  fix q :: rat assume "\<not> q < 0" "q \<noteq> 0" "\<not> 1 \<le> q" "q < 1 / 2"
  then show "(2 * q, q) \<in> measure double_measure" by (simp add: double_measure_twice)
qed

declare round_double.simps [simp del]

section \<open>NumPy arrays of image\_processor.py\<close>

text \<open>
  \<open>np.array(img)\<close> of an RGBA image has dtype uint8, and unpacking a pixel gives NumPy
  uint8 scalars: \<open>r + g + b\<close> and \<open>r - g\<close> are computed modulo 256, and \<open>abs\<close> of an
  unsigned scalar is the scalar itself. Comparisons with Python integers compare the
  values. A true division \<open>/\<close> gives a float.
\<close>

type_synonym u8 = "8 word"
type_synonym np_pixel = "u8 \<times> u8 \<times> u8 \<times> u8"
type_synonym nparray = "np_pixel image"

definition transparent :: np_pixel where
  "transparent = (0, 0, 0, 0)"

definition alpha :: "np_pixel \<Rightarrow> u8" where
  "alpha p = (case p of (r, g, b, a) \<Rightarrow> a)"

text \<open>
  Basic slicing \<open>a[y0:y1, x0:x1]\<close> with bounds that are not negative: both bounds are
  clipped to the length of the axis.
\<close>

definition slice2 :: "'p image \<Rightarrow> nat \<Rightarrow> nat \<Rightarrow> nat \<Rightarrow> nat \<Rightarrow> 'p image" where
  "slice2 a y0 y1 x0 x1 =
     (let ys = min y0 (height a); xs = min x0 (width a)
      in \<lparr>height = min y1 (height a) - ys, width = min x1 (width a) - xs,
          pix = (\<lambda>(i, j). pix a (ys + i, xs + j))\<rparr>)"

text \<open>
  \<open>(r + g + b) / 3\<close> on uint8 scalars: the sum wraps around before the division. This
  is the exact quotient; the float that the source holds is its rounding.
\<close>

definition np_brightness :: "np_pixel \<Rightarrow> rat" where
  "np_brightness p = (case p of (r, g, b, a) \<Rightarrow> of_nat (unat (r + g + b)) / 3)"

text \<open>
  The brightness as the float that the source computes, and the difference of two floats.
  The thresholds 30, 50 and 180, and 0.5, are floats themselves.
\<close>

definition float_brightness :: "np_pixel \<Rightarrow> rat" where
  "float_brightness p = round_double (np_brightness p)"

definition float_abs_diff :: "rat \<Rightarrow> rat \<Rightarrow> rat" where
  "float_abs_diff a b = \<bar>round_double (a - b)\<bar>"

definition is_checkerboard_block :: "nparray \<Rightarrow> bool" where
  "is_checkerboard_block block =
     (if height block \<noteq> 2 \<or> width block \<noteq> 2 then False
      else let brightness = map (\<lambda>c. float_brightness (pix block c)) (cells 2 2);
               diag1_diff = float_abs_diff (brightness ! 0) (brightness ! 3);
               diag2_diff = float_abs_diff (brightness ! 1) (brightness ! 2);
               cross_diff = float_abs_diff (brightness ! 0) (brightness ! 1)
           in diag1_diff < 30 \<and> diag2_diff < 30 \<and> cross_diff > 50)"

text \<open>The 2x2 block \<open>a[i:i+2, j:j+2]\<close>.\<close>

definition block_at :: "nparray \<Rightarrow> nat \<Rightarrow> nat \<Rightarrow> nparray" where
  "block_at a i j = slice2 a i (i + 2) j (j + 2)"

text \<open>The top-left indices of the blocks visited by the two loops with stride 2.\<close>

definition block_origins :: "nat \<Rightarrow> nat \<Rightarrow> (nat \<times> nat) list" where
  "block_origins h w =
     filter (\<lambda>(i, j). i + 1 < h \<and> j + 1 < w)
       (concat (map (\<lambda>i. map (\<lambda>j. (i, j)) (range_step2 (w - 1))) (range_step2 (h - 1))))"

definition has_checkerboard_pattern :: "nparray \<Rightarrow> bool" where
  "has_checkerboard_pattern corner =
     (if height corner < 4 \<or> width corner < 4 then False
      else let blocks = block_origins (height corner) (width corner);
               total_checks = length blocks;
               alternating_count =
                 length (filter (\<lambda>(i, j). is_checkerboard_block (block_at corner i j)) blocks)
           in total_checks > 0
              \<and> round_double (of_nat alternating_count / of_nat total_checks) > 1 / 2)"

datatype removal_method = Checkerboard | WhiteGray | EdgeFlood

text \<open>
  The four corner samples. \<open>a[-10:]\<close> starts 10 before the end, or at 0 when the axis
  is shorter than 10.
\<close>

definition corner_samples :: "nparray \<Rightarrow> nparray list" where
  "corner_samples a =
     (let h = height a; w = width a
      in [slice2 a 0 10 0 10, slice2 a 0 10 (w - 10) w,
          slice2 a (h - 10) h 0 10, slice2 a (h - 10) h (w - 10) w])"

definition is_light_200 :: "np_pixel \<Rightarrow> bool" where
  "is_light_200 p = (case p of (r, g, b, a) \<Rightarrow> r > 200 \<and> g > 200 \<and> b > 200)"

definition pixels_of :: "'p image \<Rightarrow> 'p list" where
  "pixels_of a = map (pix a) (cells (height a) (width a))"

definition detect_background_type :: "nparray \<Rightarrow> py_error + removal_method" where
  "detect_background_type img_array =
     (let corners = corner_samples img_array;
          checkerboard_score = length (filter has_checkerboard_pattern corners)
      in if checkerboard_score \<ge> 2 then Inr Checkerboard
         else let sampled = concat (map pixels_of corners);
                  light_pixel_count = length (filter is_light_200 sampled);
                  total_pixels = length sampled
              in if total_pixels = 0 then Inl ZeroDivisionError
                 else if round_double (of_nat light_pixel_count / of_nat total_pixels)
                           > round_double (7 / 10)
                 then Inr WhiteGray
                 else Inr EdgeFlood)"

subsection \<open>Checkerboard removal\<close>

definition mark_block :: "(nat \<times> nat \<Rightarrow> bool) \<Rightarrow> nat \<Rightarrow> nat \<Rightarrow> (nat \<times> nat \<Rightarrow> bool)" where
  "mark_block bmask i j =
     (\<lambda>(y, x). if (y = i \<or> y = i + 1) \<and> (x = j \<or> x = j + 1) then True else bmask (y, x))"

definition is_light_220 :: "np_pixel \<Rightarrow> bool" where
  "is_light_220 p = (case p of (r, g, b, a) \<Rightarrow> r > 220 \<and> g > 220 \<and> b > 220)"

definition checkerboard_mask :: "nparray \<Rightarrow> (nat \<times> nat \<Rightarrow> bool)" where
  "checkerboard_mask img_array =
     (let h = height img_array; w = width img_array;
          mask1 = fold (\<lambda>c bmask. case c of (i, j) \<Rightarrow>
                     if is_checkerboard_block (block_at img_array i j)
                     then mark_block bmask i j else bmask)
                   (block_origins h w) (\<lambda>c. False)
      in fold (\<lambda>c bmask. if is_light_220 (pix img_array c) then bmask(c := True) else bmask)
           (cells h w) mask1)"

text \<open>\<open>result[background_mask] = [0, 0, 0, 0]\<close> on a copy of the array.\<close>

definition remove_checkerboard_background :: "nparray \<Rightarrow> nparray" where
  "remove_checkerboard_background img_array =
     (let background_mask = checkerboard_mask img_array
      in img_array\<lparr>pix := (\<lambda>c. if background_mask c then transparent else pix img_array c)\<rparr>)"

subsection \<open>White/gray tolerance removal\<close>

definition white_gray_step :: "nat \<Rightarrow> nat \<times> nat \<Rightarrow> nparray \<Rightarrow> nparray" where
  "white_gray_step tolerance c result =
     (case pix result c of (r, g, b, a) \<Rightarrow>
        let color_similarity = max (max (r - g) (g - b)) (r - b);
            brightness = float_brightness (r, g, b, a)
        in if unat color_similarity < tolerance \<and> brightness > 180
           then result\<lparr>pix := (pix result)(c := transparent)\<rparr>
           else result)"

definition remove_white_gray_background :: "nparray \<Rightarrow> nat \<Rightarrow> nparray" where
  "remove_white_gray_background img_array tolerance =
     fold (white_gray_step tolerance) (cells (height img_array) (width img_array)) img_array"

subsection \<open>Edge flood fill\<close>

text \<open>
  The coordinates in the work queue are natural numbers: only coordinates that passed
  \<open>0 <= ny < height and 0 <= nx < width\<close> (or come from \<open>range\<close>) are ever appended.
  \<open>ny = y + dy\<close> is computed on integers, since \<open>y - 1\<close> may be \<open>-1\<close>.

  \<open>seed_color = result[y, x][:3]\<close> is a NumPy view of the pixel, not a copy. When the
  neighbours are compared, \<open>result[y, x]\<close> has already been overwritten by \<open>[0, 0, 0, 0]\<close>,
  so the view reads \<open>(0, 0, 0)\<close>: the model reads the seed colour from the array after
  the write. \<open>r, g, b\<close> were unpacked before the write and hold the old values.

  \<open>abs(a - b)\<close> on two uint8 scalars is \<open>a - b\<close> modulo 256. Python's \<open>sum\<close> starts from
  the integer 0: with NumPy 2 (NEP 50) the accumulator is a uint8 and the sum wraps
  around, with NumPy 1 it is an int64 and the sum is exact. The flag \<open>uint8_sum\<close> selects
  between the two; every theorem below holds for both.
\<close>

definition in_bounds :: "'p image \<Rightarrow> nat \<times> nat \<Rightarrow> bool" where
  "in_bounds a c = (case c of (y, x) \<Rightarrow> y < height a \<and> x < width a)"

definition is_light_180 :: "np_pixel \<Rightarrow> bool" where
  "is_light_180 p = (case p of (r, g, b, a) \<Rightarrow> r > 180 \<and> g > 180 \<and> b > 180)"

definition border_cells :: "nat \<Rightarrow> nat \<Rightarrow> (nat \<times> nat) list" where
  "border_cells h w = filter (\<lambda>(i, j). i = 0 \<or> i = h - 1 \<or> j = 0 \<or> j = w - 1) (cells h w)"

definition color_diff :: "bool \<Rightarrow> np_pixel \<Rightarrow> np_pixel \<Rightarrow> nat" where
  "color_diff uint8_sum seed_color neighbor_color =
     (case seed_color of (sr, sg, sb, sa) \<Rightarrow> case neighbor_color of (nr, ng, nb, na) \<Rightarrow>
        if uint8_sum then unat ((sr - nr) + (sg - ng) + (sb - nb))
        else unat (sr - nr) + unat (sg - ng) + unat (sb - nb))"

definition neighbour_cells :: "nat \<Rightarrow> nat \<Rightarrow> nat \<times> nat \<Rightarrow> (nat \<times> nat) list" where
  "neighbour_cells h w c =
     (case c of (y, x) \<Rightarrow>
        map (\<lambda>(ny, nx). (nat ny, nat nx))
          (filter (\<lambda>(ny, nx). 0 \<le> ny \<and> ny < int h \<and> 0 \<le> nx \<and> nx < int w)
             (concat (map (\<lambda>dy. map (\<lambda>dx. (int y + dy, int x + dx)) [-1, 0, 1]) [-1, 0, 1]))))"

record flood_state =
  fs_result :: nparray
  fs_visited :: "nat \<times> nat \<Rightarrow> bool"
  fs_queue :: "(nat \<times> nat) list"

definition pop_step :: "bool \<Rightarrow> flood_state \<Rightarrow> py_error + flood_state" where
  "pop_step uint8_sum s =
     (case fs_queue s of
        [] \<Rightarrow> Inl IndexError
      | c # rest \<Rightarrow>
          if \<not> in_bounds (fs_result s) c then Inl IndexError
          else if fs_visited s c then Inr (s\<lparr>fs_queue := rest\<rparr>)
          else
            let visited' = (fs_visited s)(c := True)
            in if \<not> is_light_180 (pix (fs_result s) c)
               then Inr (s\<lparr>fs_visited := visited', fs_queue := rest\<rparr>)
               else
                 let result' = (fs_result s)\<lparr>pix := (pix (fs_result s))(c := transparent)\<rparr>;
                     seed_color = pix result' c;
                     similar = filter (\<lambda>n. \<not> visited' n
                                  \<and> color_diff uint8_sum seed_color (pix result' n) < 60)
                                (neighbour_cells (height result') (width result') c)
                 in Inr \<lparr>fs_result = result', fs_visited = visited',
                          fs_queue = rest @ similar\<rparr>)"

definition unvisited :: "flood_state \<Rightarrow> (nat \<times> nat) set" where
  "unvisited s = {c. in_bounds (fs_result s) c \<and> \<not> fs_visited s c}"

lemma finite_unvisited: "finite (unvisited s)"
proof (rule finite_subset)
  show "unvisited s \<subseteq> {..< height (fs_result s)} \<times> {..< width (fs_result s)}"
    by (auto simp add: unvisited_def in_bounds_def)
qed simp

lemma pop_step_shape:
  "pop_step u s = Inr s' \<Longrightarrow>
     height (fs_result s') = height (fs_result s) \<and> width (fs_result s') = width (fs_result s)"
  by (auto simp add: pop_step_def Let_def split: list.splits if_splits)

lemma pop_step_decreases:
  assumes "pop_step u s = Inr s'"
  shows "card (unvisited s') < card (unvisited s)
         \<or> (card (unvisited s') = card (unvisited s) \<and> length (fs_queue s') < length (fs_queue s))"
proof (cases "fs_queue s")
  case Nil
  with assms show ?thesis by (simp add: pop_step_def)
next
  case (Cons c rest)
  show ?thesis
  proof (cases "fs_visited s c")
    case True
    with assms Cons have "s' = s\<lparr>fs_queue := rest\<rparr>"
      by (auto simp add: pop_step_def split: if_splits)
    with Cons show ?thesis by (simp add: unvisited_def)
  next
    case False
    from assms Cons have inb: "in_bounds (fs_result s) c"
      by (auto simp add: pop_step_def split: if_splits)
    from assms Cons False inb have v: "fs_visited s' = (fs_visited s)(c := True)"
      by (auto simp add: pop_step_def Let_def split: if_splits)
    have "unvisited s' = unvisited s - {c}"
      using pop_step_shape [OF assms] v by (auto simp add: unvisited_def in_bounds_def)
    moreover have "c \<in> unvisited s"
      using False inb by (simp add: unvisited_def)
    ultimately have "card (unvisited s') < card (unvisited s)"
      using finite_unvisited [of s] card_Diff1_less [of "unvisited s" c] by simp
    then show ?thesis by simp
  qed
qed

function flood_loop :: "bool \<Rightarrow> flood_state \<Rightarrow> py_error + nparray" where
  "flood_loop uint8_sum s =
     (if fs_queue s = [] then Inr (fs_result s)
      else case pop_step uint8_sum s of
             Inl e \<Rightarrow> Inl e
           | Inr s' \<Rightarrow> flood_loop uint8_sum s')"
  by pat_completeness auto

termination
proof (relation "measures [\<lambda>(u, s). card (unvisited s), \<lambda>(u, s). length (fs_queue s)]")
  show "wf (measures [\<lambda>(u, s). card (unvisited s), \<lambda>(u, s). length (fs_queue s)])"
    by simp
next
  fix uint8_sum s s'
  assume "fs_queue s \<noteq> []" and "pop_step uint8_sum s = Inr s'"
  then show "((uint8_sum, s'), (uint8_sum, s))
      \<in> measures [\<lambda>(u, s). card (unvisited s), \<lambda>(u, s). length (fs_queue s)]"
    using pop_step_decreases [of uint8_sum s s'] by auto
qed

text \<open>The state before the loop: a copy of the array, nothing visited, the border queued.\<close>

definition initial_state :: "nparray \<Rightarrow> flood_state" where
  "initial_state img_array =
     \<lparr>fs_result = img_array, fs_visited = (\<lambda>c. False),
      fs_queue = border_cells (height img_array) (width img_array)\<rparr>"

definition remove_background_flood_fill :: "bool \<Rightarrow> nparray \<Rightarrow> py_error + nparray" where
  "remove_background_flood_fill uint8_sum img_array =
     flood_loop uint8_sum (initial_state img_array)"

text \<open>
  The same loop cut off after \<open>n\<close> iterations, and the cells that the loop pops and does
  not skip, in the order in which it does so.
\<close>

fun run_steps :: "nat \<Rightarrow> bool \<Rightarrow> flood_state \<Rightarrow> py_error + flood_state" where
  "run_steps 0 uint8_sum s = Inr s"
| "run_steps (Suc n) uint8_sum s =
     (if fs_queue s = [] then Inr s
      else case pop_step uint8_sum s of
             Inl e \<Rightarrow> Inl e
           | Inr s' \<Rightarrow> run_steps n uint8_sum s')"

function processed_cells :: "bool \<Rightarrow> flood_state \<Rightarrow> (nat \<times> nat) list" where
  "processed_cells uint8_sum s =
     (if fs_queue s = [] then []
      else case pop_step uint8_sum s of
             Inl e \<Rightarrow> []
           | Inr s' \<Rightarrow>
               (if fs_visited s (hd (fs_queue s)) then [] else [hd (fs_queue s)])
               @ processed_cells uint8_sum s')"
  by pat_completeness auto

termination
proof (relation "measures [\<lambda>(u, s). card (unvisited s), \<lambda>(u, s). length (fs_queue s)]")
  show "wf (measures [\<lambda>(u, s). card (unvisited s), \<lambda>(u, s). length (fs_queue s)])"
    by simp
next
  fix uint8_sum s s'
  assume "fs_queue s \<noteq> []" and "pop_step uint8_sum s = Inr s'"
  then show "((uint8_sum, s'), (uint8_sum, s))
      \<in> measures [\<lambda>(u, s). card (unvisited s), \<lambda>(u, s). length (fs_queue s)]"
    using pop_step_decreases [of uint8_sum s s'] by auto
qed

text \<open>
  Connectivity in the original image: a border cell, 8-adjacency, and the cells that are
  light and joined to a light border cell by a chain of adjacent light cells.
\<close>

definition is_border :: "'p image \<Rightarrow> nat \<times> nat \<Rightarrow> bool" where
  "is_border a c =
     (case c of (i, j) \<Rightarrow> i = 0 \<or> i = height a - 1 \<or> j = 0 \<or> j = width a - 1)"

definition adjacent8 :: "nat \<times> nat \<Rightarrow> nat \<times> nat \<Rightarrow> bool" where
  "adjacent8 c d =
     (case c of (y, x) \<Rightarrow> case d of (ny, nx) \<Rightarrow>
        c \<noteq> d \<and> \<bar>int ny - int y\<bar> \<le> 1 \<and> \<bar>int nx - int x\<bar> \<le> 1)"

inductive light_reach :: "nparray \<Rightarrow> nat \<times> nat \<Rightarrow> bool" for img :: nparray where
  from_border:
    "in_bounds img c \<Longrightarrow> is_border img c \<Longrightarrow> is_light_180 (pix img c)
       \<Longrightarrow> light_reach img c"
| from_neighbour:
    "light_reach img c \<Longrightarrow> adjacent8 c d \<Longrightarrow> in_bounds img d
       \<Longrightarrow> is_light_180 (pix img d) \<Longrightarrow> light_reach img d"

text \<open>
  A path as the claim speaks of it: a list of cells inside the image that starts on the
  border and whose consecutive cells are 8-adjacent.
\<close>

definition border_path :: "nparray \<Rightarrow> (nat \<times> nat) list \<Rightarrow> bool" where
  "border_path img ps =
     (ps \<noteq> [] \<and> is_border img (hd ps) \<and> (\<forall>c \<in> set ps. in_bounds img c)
      \<and> successively adjacent8 ps)"

text \<open>The invariant of the loop, relative to the original image.\<close>

definition flood_inv :: "nparray \<Rightarrow> flood_state \<Rightarrow> bool" where
  "flood_inv img s =
     (height (fs_result s) = height img \<and> width (fs_result s) = width img
      \<and> (\<forall>c. pix (fs_result s) c = pix img c
               \<or> (pix (fs_result s) c = transparent \<and> light_reach img c))
      \<and> (\<forall>c \<in> set (fs_queue s).
             in_bounds img c \<and> (is_border img c \<or> (\<exists>d. light_reach img d \<and> adjacent8 d c))))"

text \<open>A 3x3 image of one light gray.\<close>

definition gray3 :: nparray where
  "gray3 = uniform 3 3 (200, 200, 200, 255)"

subsection \<open>Choosing a strategy, and the best-result selector\<close>

text \<open>
  \<open>remove_complex_background\<close> with the image already decoded; \<open>None\<close> for the strategy stands
  for \<open>"auto"\<close>. The function catches every exception and returns \<open>None\<close> then, which
  is \<open>None\<close> here too; otherwise the value is the image written to the output path.
\<close>

definition remove_complex_background ::
    "bool \<Rightarrow> removal_method option \<Rightarrow> nparray \<Rightarrow> nparray option" where
  "remove_complex_background uint8_sum meth img_array =
     (case (case meth of None \<Rightarrow> detect_background_type img_array | Some m \<Rightarrow> Inr m) of
        Inl e \<Rightarrow> None
      | Inr Checkerboard \<Rightarrow> Some (remove_checkerboard_background img_array)
      | Inr WhiteGray \<Rightarrow> Some (remove_white_gray_background img_array 40)
      | Inr EdgeFlood \<Rightarrow>
          (case remove_background_flood_fill uint8_sum img_array of
             Inl e \<Rightarrow> None
           | Inr r \<Rightarrow> Some r))"

text \<open>
  The ratio of pixels with alpha 0. The images measured here are the RGBA files written
  by \<open>remove_complex_background\<close>, so the early return for other modes is not taken. The
  ratio is the float quotient of the two counts; for an image without pixels NumPy
  returns nan, which fails every comparison, and the model returns \<open>None\<close>.
\<close>

definition calculate_transparency_ratio :: "nparray \<Rightarrow> rat option" where
  "calculate_transparency_ratio img =
     (let transparent_pixels = length (filter (\<lambda>p. alpha p = 0) (pixels_of img));
          total_pixels = height img * width img
      in if total_pixels = 0 then None
         else Some (round_double (of_nat transparent_pixels / of_nat total_pixels)))"

text \<open>
  The state of the selection loop: \<open>best_result\<close>, \<open>best_method\<close> and the image stored
  at the output path (the temporary file of an accepted result is renamed to it).
\<close>

type_synonym selector_state = "rat option \<times> removal_method option \<times> nparray option"

text \<open>
  \<open>0.3 < ratio < 0.8\<close>: the two literals are the floats nearest to 3/10 and 8/10.
  \<open>abs(ratio - 0.5)\<close> is a float subtraction.
\<close>

definition in_band :: "rat \<Rightarrow> bool" where
  "in_band t = (round_double (3 / 10) < t \<and> t < round_double (8 / 10))"

definition half_distance :: "rat \<Rightarrow> rat" where
  "half_distance t = \<bar>round_double (t - 1 / 2)\<bar>"

definition try_method :: "bool \<Rightarrow> nparray \<Rightarrow> removal_method \<Rightarrow> selector_state \<Rightarrow> selector_state" where
  "try_method uint8_sum img m st =
     (case st of (best_result, best_method, output) \<Rightarrow>
        (case remove_complex_background uint8_sum (Some m) img of
           None \<Rightarrow> st
         | Some result_img \<Rightarrow>
             (case calculate_transparency_ratio result_img of
                None \<Rightarrow> st
              | Some transparency_ratio \<Rightarrow>
                  if in_band transparency_ratio
                  then (case best_result of
                          None \<Rightarrow> (Some transparency_ratio, Some m, Some result_img)
                        | Some best \<Rightarrow>
                            if half_distance transparency_ratio < half_distance best
                            then (Some transparency_ratio, Some m, Some result_img)
                            else st)
                  else st)))"

definition methods :: "removal_method list" where
  "methods = [Checkerboard, WhiteGray, EdgeFlood]"

definition process_single_cat_image :: "bool \<Rightarrow> nparray \<Rightarrow> nparray option" where
  "process_single_cat_image uint8_sum img =
     (case fold (try_method uint8_sum img) methods (None, None, None) of
        (best_result, best_method, output) \<Rightarrow>
          if best_method \<noteq> None then output
          else remove_complex_background uint8_sum (Some WhiteGray) img)"

section \<open>PIL images of process\_cat.py and of the sprite sheet\<close>

text \<open>
  A PIL pixel is a tuple of Python integers, and \<open>pixels[x, y]\<close> takes the column first:
  the store of a PIL image is read at \<open>(x, y)\<close>.
\<close>

type_synonym pil_pixel = "int \<times> int \<times> int \<times> int"
type_synonym pil_image = "pil_pixel image"

definition pil_alpha :: "pil_pixel \<Rightarrow> int" where
  "pil_alpha p = (case p of (r, g, b, a) \<Rightarrow> a)"

subsection \<open>Edge cleanup\<close>

text \<open>The offsets \<open>(dx, dy)\<close> of the two loops over \<open>[-1, 0, 1]\<close>, without \<open>(0, 0)\<close>.\<close>

definition neighbor_offsets :: "(int \<times> int) list" where
  "neighbor_offsets =
     filter (\<lambda>(dx, dy). \<not> (dx = 0 \<and> dy = 0))
       (concat (map (\<lambda>dy. map (\<lambda>dx. (dx, dy)) [-1, 0, 1]) [-1, 0, 1]))"

definition transparent_neighbors :: "pil_image \<Rightarrow> nat \<Rightarrow> nat \<Rightarrow> nat" where
  "transparent_neighbors img x y =
     length (filter (\<lambda>(dx, dy). pil_alpha (pix img (nat (int x + dx), nat (int y + dy))) = 0)
               neighbor_offsets)"

text \<open>One iteration of the inner loop: reads the original image, writes the copy.\<close>

definition cleanup_step :: "pil_image \<Rightarrow> nat \<times> nat \<Rightarrow> pil_image \<Rightarrow> pil_image" where
  "cleanup_step img c res =
     (case c of (x, y) \<Rightarrow>
        (case pix img (x, y) of (r, g, b, a) \<Rightarrow>
           if a > 0
           then (if transparent_neighbors img x y \<ge> 6
                 then (if r > 180 \<and> g > 180 \<and> b > 180
                       then res\<lparr>pix := (pix res)(c := (0, 0, 0, 0))\<rparr>
                       else res)
                 else res)
           else res))"

text \<open>\<open>for y in range(1, height-1): for x in range(1, width-1)\<close>.\<close>

definition interior_cells :: "nat \<Rightarrow> nat \<Rightarrow> (nat \<times> nat) list" where
  "interior_cells w h = concat (map (\<lambda>y. map (\<lambda>x. (x, y)) [1..<w - 1]) [1..<h - 1])"

definition cleanup_edges :: "pil_image \<Rightarrow> pil_image" where
  "cleanup_edges img = fold (cleanup_step img) (interior_cells (width img) (height img)) img"

subsection \<open>Sprite sheet assembly\<close>

text \<open>
  The frames are given decoded: \<open>None\<close> for a path that does not exist (the loop skips
  it). Two operations of PIL are parameters of the model: \<open>resize\<close>, the Lanczos
  resampling of a frame to a size, which returns the pixels of the resized frame or
  \<open>None\<close> when PIL raises; and \<open>blend\<close>, what \<open>paste\<close> with a mask stores for a source
  pixel (whose own alpha is the mask) over a destination pixel. \<open>columns\<close>,
  \<open>frame_width\<close> and \<open>frame_height\<close> are counts and sizes, taken as natural numbers.
  An exception anywhere makes \<open>create_sprite_sheet\<close> return \<open>None\<close>; division by
  \<open>columns = 0\<close> is one. The model returns the image that the code hands to \<open>save\<close>.
\<close>

type_synonym resize_fn = "pil_image \<Rightarrow> nat \<times> nat \<Rightarrow> (nat \<times> nat \<Rightarrow> pil_pixel) option"
type_synonym blend_fn = "pil_pixel \<Rightarrow> pil_pixel \<Rightarrow> pil_pixel"

text \<open>\<open>sheet.paste(frame, (x0, y0), frame)\<close>: the box of the frame, clipped to the sheet.\<close>

definition paste :: "blend_fn \<Rightarrow> pil_image \<Rightarrow> pil_image \<Rightarrow> nat \<times> nat \<Rightarrow> pil_image" where
  "paste blend sheet frame pos =
     (case pos of (x0, y0) \<Rightarrow>
        sheet\<lparr>pix := (\<lambda>(x, y).
           if x0 \<le> x \<and> x < x0 + width frame \<and> y0 \<le> y \<and> y < y0 + height frame
              \<and> x < width sheet \<and> y < height sheet
           then blend (pix frame (x - x0, y - y0)) (pix sheet (x, y))
           else pix sheet (x, y))\<rparr>)"

text \<open>The loop over \<open>enumerate(image_paths)\<close>.\<close>

fun paste_frames ::
    "resize_fn \<Rightarrow> blend_fn \<Rightarrow> nat \<Rightarrow> nat \<Rightarrow> nat \<Rightarrow> (nat \<times> pil_image option) list
       \<Rightarrow> pil_image \<Rightarrow> pil_image option" where
  "paste_frames resize blend columns frame_width frame_height [] sprite_sheet = Some sprite_sheet"
| "paste_frames resize blend columns frame_width frame_height ((i, None) # rest) sprite_sheet =
     paste_frames resize blend columns frame_width frame_height rest sprite_sheet"
| "paste_frames resize blend columns frame_width frame_height ((i, Some frame) # rest) sprite_sheet =
     (case resize frame (frame_width, frame_height) of
        None \<Rightarrow> None
      | Some resized \<Rightarrow>
          let col = i mod columns; row = i div columns;
              x = col * frame_width; y = row * frame_height
          in paste_frames resize blend columns frame_width frame_height rest
               (paste blend sprite_sheet
                  \<lparr>height = frame_height, width = frame_width, pix = resized\<rparr> (x, y)))"

definition create_sprite_sheet ::
    "resize_fn \<Rightarrow> blend_fn \<Rightarrow> pil_image option list \<Rightarrow> nat \<Rightarrow> nat \<Rightarrow> nat
       \<Rightarrow> pil_image option" where
  "create_sprite_sheet resize blend image_paths columns frame_width frame_height =
     (if columns = 0 then None
      else let rows = (length image_paths + columns - 1) div columns;
               sheet_width = columns * frame_width;
               sheet_height = rows * frame_height
           in paste_frames resize blend columns frame_width frame_height
                (zip [0..<length image_paths] image_paths)
                (uniform sheet_height sheet_width (0, 0, 0, 0)))"

text \<open>
  The eight neighbours of a pixel, and the pixel of Scenario E: one opaque black pixel
  surrounded by eight transparent ones.
\<close>

definition neighbours8 :: "nat \<Rightarrow> nat \<Rightarrow> (nat \<times> nat) set" where
  "neighbours8 x y =
     {(nx, ny). (nx, ny) \<noteq> (x, y) \<and> \<bar>int nx - int x\<bar> \<le> 1 \<and> \<bar>int ny - int y\<bar> \<le> 1}"

definition scenario_E :: pil_image where
  "scenario_E = \<lparr>height = 3, width = 3,
                  pix = (\<lambda>c. if c = (1, 1) then (0, 0, 0, 255) else (0, 0, 0, 0))\<rparr>"

text \<open>The three nested tests of \<open>cleanup_edges\<close> as one condition.\<close>

definition should_clear :: "pil_image \<Rightarrow> nat \<times> nat \<Rightarrow> bool" where
  "should_clear img c =
     (case c of (x, y) \<Rightarrow> case pix img (x, y) of (r, g, b, a) \<Rightarrow>
        a > 0 \<and> transparent_neighbors img x y \<ge> 6 \<and> r > 180 \<and> g > 180 \<and> b > 180)"

text \<open>
  The total absolute difference of the RGB channels of two pixels, as the specification
  words the similarity test of the flood fill.
\<close>

definition abs_rgb_diff :: "np_pixel \<Rightarrow> np_pixel \<Rightarrow> nat" where
  "abs_rgb_diff p q =
     (case p of (pr, pg, pb, pa) \<Rightarrow> case q of (qr, qg, qb, qa) \<Rightarrow>
        nat (\<bar>int (unat pr) - int (unat qr)\<bar> + \<bar>int (unat pg) - int (unat qg)\<bar>
             + \<bar>int (unat pb) - int (unat qb)\<bar>))"

text \<open>
  A 5x5 image: a white centre, a ring of opaque black pixels around it, and a white
  border. \<open>ring_distance\<close> is the distance of a cell from the centre, in king's moves.
\<close>

definition ring_distance :: "nat \<times> nat \<Rightarrow> nat" where
  "ring_distance c = (case c of (i, j) \<Rightarrow> nat (max \<bar>int i - 2\<bar> \<bar>int j - 2\<bar>))"

definition ring5 :: nparray where
  "ring5 = \<lparr>height = 5, width = 5,
             pix = (\<lambda>c. if ring_distance c = 1 then (0, 0, 0, 255) else (255, 255, 255, 255))\<rparr>"

text \<open>The initial state of the 3x3 gray image with its first cell already visited.\<close>

definition visited_corner :: flood_state where
  "visited_corner = (initial_state gray3)\<lparr>fs_visited := (\<lambda>c. c = (0, 0))\<rparr>"

text \<open>
  What the claim about the selector speaks of: the result of a strategy together with its
  transparency ratio, when the strategy returns and the ratio is strictly inside the
  band, and the list of these for the three strategies in the order of the loop.
\<close>

definition accepted_candidate :: "bool \<Rightarrow> nparray \<Rightarrow> removal_method \<Rightarrow> (nparray \<times> rat) option" where
  "accepted_candidate uint8_sum img m =
     (case remove_complex_background uint8_sum (Some m) img of
        None \<Rightarrow> None
      | Some result_img \<Rightarrow>
          (case calculate_transparency_ratio result_img of
             None \<Rightarrow> None
           | Some t \<Rightarrow> if in_band t then Some (result_img, t) else None))"

definition accepted_candidates :: "bool \<Rightarrow> nparray \<Rightarrow> (nparray \<times> rat) list" where
  "accepted_candidates uint8_sum img =
     List.map_filter (accepted_candidate uint8_sum img) [Checkerboard, WhiteGray, EdgeFlood]"

text \<open>The invariant of the selection loop, over the accepted results seen so far.\<close>

definition selector_good :: "selector_state \<Rightarrow> (nparray \<times> rat) list \<Rightarrow> bool" where
  "selector_good st acc =
     (case st of (best_result, best_method, output) \<Rightarrow>
        (acc = [] \<and> best_result = None \<and> best_method = None)
        \<or> (\<exists>r t. best_result = Some t \<and> best_method \<noteq> None \<and> output = Some r
               \<and> (r, t) \<in> set acc
               \<and> (\<forall>(r', t') \<in> set acc. half_distance t \<le> half_distance t')))"

text \<open>Scenario A, and a 1x2 image of one white and one black pixel.\<close>

definition white :: np_pixel where
  "white = (255, 255, 255, 255)"

definition black :: np_pixel where
  "black = (0, 0, 0, 255)"

definition scenario_A :: nparray where
  "scenario_A = uniform 64 64 white"

definition white_black :: nparray where
  "white_black = \<lparr>height = 1, width = 2, pix = (\<lambda>c. if c = (0, 0) then white else black)\<rparr>"

text \<open>
  The invariant of the flood fill on an image that is white everywhere: a cell is
  transparent once visited and white before, every border cell and every neighbour of a
  visited cell is visited or queued.
\<close>

definition white_inv :: "nparray \<Rightarrow> flood_state \<Rightarrow> bool" where
  "white_inv img s =
     (height (fs_result s) = height img \<and> width (fs_result s) = width img
      \<and> (\<forall>c. in_bounds img c \<longrightarrow>
             pix (fs_result s) c = (if fs_visited s c then transparent else white))
      \<and> (\<forall>c \<in> set (fs_queue s). in_bounds img c)
      \<and> (\<forall>c. in_bounds img c \<and> is_border img c \<longrightarrow> fs_visited s c \<or> c \<in> set (fs_queue s))
      \<and> (\<forall>c. in_bounds img c \<and> fs_visited s c \<longrightarrow>
             (\<forall>n \<in> set (neighbour_cells (height img) (width img) c).
                fs_visited s n \<or> n \<in> set (fs_queue s))))"

text \<open>
  A 1x3 image of a white, a light gray and a black pixel: the checkerboard strategy clears
  one pixel of three, the flood fill two of three.
\<close>

definition white_gray_black :: nparray where
  "white_gray_black = \<lparr>height = 1, width = 3,
       pix = (\<lambda>c. if c = (0, 0) then white
                   else if c = (0, 1) then (200, 200, 200, 255) else black)\<rparr>"

text \<open>
  Instances of the two PIL parameters for a concrete sheet: a resize that takes the
  nearest pixel and fails on an empty target, and a paste that stores the source pixel
  where its alpha is 255 and keeps the destination elsewhere. \<open>numbered_frames\<close> are ten
  opaque 1x1 frames that carry their index in the red channel.
\<close>

definition numbered_frames :: "pil_image option list" where
  "numbered_frames = map (\<lambda>k. Some (uniform 1 1 (int k, 0, 0, 255))) [0..<10]"

definition resize_nearest :: resize_fn where
  "resize_nearest frame target =
     (case target of (w, h) \<Rightarrow>
        if w = 0 \<or> h = 0 then None
        else Some (\<lambda>(x, y). pix frame (x * width frame div w, y * height frame div h)))"

definition blend_opaque :: blend_fn where
  "blend_opaque src dst = (if pil_alpha src = 255 then src else dst)"

text \<open>
  Scenario B: an 8x8 image of four 4x4 quadrants, two white and two opaque black, placed
  diagonally. The flag says whether the top-left and bottom-right quadrants are the white
  ones.
\<close>

definition scenario_B :: "bool \<Rightarrow> nparray" where
  "scenario_B diagonal_white =
     \<lparr>height = 8, width = 8,
      pix = (\<lambda>(i, j). if ((i < 4) = (j < 4)) = diagonal_white then white else black)\<rparr>"

section \<open>Properties of the pixel classifier\<close>

lemma near_known_color_iff:
  "near_known_color r g b t bgs \<longleftrightarrow>
     (\<exists>(bg_r, bg_g, bg_b) \<in> set bgs. \<bar>r - bg_r\<bar> < t \<and> \<bar>g - bg_g\<bar> < t \<and> \<bar>b - bg_b\<bar> < t)"
  by (induction r g b t bgs rule: near_known_color.induct) auto

lemma brightness_gt_180: "brightness r g b > 180 \<longleftrightarrow> r + g + b > 540"
proof -
  have "brightness r g b > 180 \<longleftrightarrow> (of_int (r + g + b) :: rat) > of_int 540"
    by (simp add: brightness_def)
  also have "\<dots> \<longleftrightarrow> r + g + b > 540"
    by (simp only: of_int_less_iff)
  finally show ?thesis .
qed

lemma near_white_gray_bright: "near_white_gray r g b \<Longrightarrow> brightness r g b > 180"
  by (simp add: near_white_gray_def brightness_gt_180)

text \<open>
  Claim C10. The near-white/grayscale rule of \<open>is_background_pixel\<close> is redundant: with
  tolerance 25 the classifier answers true exactly when the pixel is within 25 per channel
  of some background colour or its average brightness exceeds 180, and every pixel that
  satisfies the near-white rule satisfies the brightness rule.
\<close>

theorem is_background_pixel_two_rules:
  "is_background_pixel r g b background_colors 25
     = two_rule_classifier r g b background_colors 25
   \<and> (near_white_gray r g b \<longrightarrow> brightness r g b > 180)"
  using near_white_gray_bright [of r g b]
  by (auto simp add: is_background_pixel_def two_rule_classifier_def near_known_color_iff)

theorem is_background_pixel_two_rules_witness:
  "near_white_gray 210 215 220 \<and> brightness 210 215 220 > 180
   \<and> is_background_pixel 210 215 220 [(16, 16, 16)] 25
   \<and> two_rule_classifier 210 215 220 [(16, 16, 16)] 25"
  using is_background_pixel_two_rules [of 210 215 220 "[(16, 16, 16)]"]
  by (simp add: near_white_gray_def two_rule_classifier_def)

section \<open>Edge cleanup\<close>

lemma cleanup_step_eq:
  "cleanup_step img c res =
     (if should_clear img c then res\<lparr>pix := (pix res)(c := (0, 0, 0, 0))\<rparr> else res)"
  by (auto simp add: cleanup_step_def should_clear_def split: prod.splits)

lemma pix_fold_cleanup_step:
  "pix (fold (cleanup_step img) cs res) c' =
     (if c' \<in> set cs \<and> should_clear img c' then (0, 0, 0, 0) else pix res c')"
proof (induction cs arbitrary: res)
  case Nil
  show ?case by simp
next
  case (Cons c cs)
  have "pix (cleanup_step img c res) c' =
          (if c' = c \<and> should_clear img c' then (0, 0, 0, 0) else pix res c')"
    by (auto simp add: cleanup_step_eq)
  then show ?case
    by (auto simp add: Cons.IH)
qed

lemma set_interior_cells:
  "(x, y) \<in> set (interior_cells w h) \<longleftrightarrow> 1 \<le> x \<and> x < w - 1 \<and> 1 \<le> y \<and> y < h - 1"
  by (auto simp add: interior_cells_def image_iff)

lemma neighbours8_list:
  assumes "1 \<le> x" "1 \<le> y"
  shows "neighbours8 x y =
           set [(x - 1, y - 1), (x, y - 1), (x + 1, y - 1), (x - 1, y), (x + 1, y),
                (x - 1, y + 1), (x, y + 1), (x + 1, y + 1)]"
proof -
  have step: "\<bar>int n - int k\<bar> \<le> 1 \<longleftrightarrow> n = k - 1 \<or> n = k \<or> n = k + 1" if "1 \<le> k" for n k :: nat
    using that by arith
  show ?thesis
    using assms by (auto simp add: neighbours8_def step)
qed

lemma neighbor_offsets_eq:
  "neighbor_offsets = [(-1, -1), (0, -1), (1, -1), (-1, 0), (1, 0), (-1, 1), (0, 1), (1, 1)]"
  by (simp add: neighbor_offsets_def)

lemma transparent_neighbors_list:
  assumes "1 \<le> x" "1 \<le> y"
  shows "transparent_neighbors img x y =
     length (filter (\<lambda>n. pil_alpha (pix img n) = 0)
        [(x - 1, y - 1), (x, y - 1), (x + 1, y - 1), (x - 1, y), (x + 1, y),
             (x - 1, y + 1), (x, y + 1), (x + 1, y + 1)])"
proof -
  let ?f = "\<lambda>(dx, dy). (nat (int x + dx), nat (int y + dy))"
  let ?Q = "\<lambda>n. pil_alpha (pix img n) = 0"
  have "transparent_neighbors img x y = length (filter (?Q \<circ> ?f) neighbor_offsets)"
    by (simp add: transparent_neighbors_def comp_def case_prod_unfold)
  also have "\<dots> = length (map ?f (filter (?Q \<circ> ?f) neighbor_offsets))"
    by (simp only: length_map)
  also have "\<dots> = length (filter ?Q (map ?f neighbor_offsets))"
    by (simp only: filter_map)
  also have "map ?f neighbor_offsets =
      [(x - 1, y - 1), (x, y - 1), (x + 1, y - 1), (x - 1, y), (x + 1, y),
             (x - 1, y + 1), (x, y + 1), (x + 1, y + 1)]"
    using assms by (simp add: neighbor_offsets_eq nat_diff_distrib' nat_add_distrib)
  finally show ?thesis .
qed

lemma transparent_neighbors_card:
  assumes "1 \<le> x" "1 \<le> y"
  shows "transparent_neighbors img x y = card {n \<in> neighbours8 x y. pil_alpha (pix img n) = 0}"
proof -
  let ?L = "[(x - 1, y - 1), (x, y - 1), (x + 1, y - 1), (x - 1, y), (x + 1, y),
             (x - 1, y + 1), (x, y + 1), (x + 1, y + 1)]"
  let ?Q = "\<lambda>n. pil_alpha (pix img n) = 0"
  have d: "distinct ?L" using assms by auto
  have "{n \<in> neighbours8 x y. ?Q n} = set (filter ?Q ?L)"
    unfolding neighbours8_list [OF assms] by (simp only: set_filter)
  then have "card {n \<in> neighbours8 x y. ?Q n} = length (filter ?Q ?L)"
    using d by (simp only: distinct_card distinct_filter)
  then show ?thesis
    by (simp only: transparent_neighbors_list [OF assms])
qed

lemma scenario_E_neighbours:
  "card {n \<in> neighbours8 1 1. pil_alpha (pix scenario_E n) = 0} = 8"
proof -
  have "card {n \<in> neighbours8 1 1. pil_alpha (pix scenario_E n) = 0}
          = transparent_neighbors scenario_E 1 1"
    by (rule transparent_neighbors_card [symmetric]) simp_all
  also have "\<dots> = 8"
    by (simp add: transparent_neighbors_list scenario_E_def pil_alpha_def)
  finally show ?thesis .
qed

text \<open>
  Claim C6. Edge cleanup makes an interior pixel with alpha > 0 transparent exactly when
  at least 6 of its 8 neighbours have alpha 0 in the image before the cleanup and its own
  R, G and B are all above 180. For the pixel \<open>(0, 0, 0, 255)\<close> the brightness test fails,
  so it is kept whatever its neighbours are: the witness is Scenario E, where all 8
  neighbours are transparent.
\<close>

theorem cleanup_edges_interior:
  assumes "1 \<le> x" and "x < width img - 1" and "1 \<le> y" and "y < height img - 1"
    and "pix img (x, y) = (r, g, b, a)" and "a > 0"
  shows "pix (cleanup_edges img) (x, y) =
           (if 6 \<le> card {n \<in> neighbours8 x y. pil_alpha (pix img n) = 0}
               \<and> r > 180 \<and> g > 180 \<and> b > 180
            then (0, 0, 0, 0) else (r, g, b, a))
         \<and> (pil_alpha (pix (cleanup_edges img) (x, y)) = 0 \<longleftrightarrow>
              6 \<le> card {n \<in> neighbours8 x y. pil_alpha (pix img n) = 0}
              \<and> r > 180 \<and> g > 180 \<and> b > 180)"
proof -
  have "pix (cleanup_edges img) (x, y) =
          (if should_clear img (x, y) then (0, 0, 0, 0) else (r, g, b, a))"
    using assms by (simp add: cleanup_edges_def pix_fold_cleanup_step set_interior_cells)
  moreover have "should_clear img (x, y) \<longleftrightarrow>
      6 \<le> card {n \<in> neighbours8 x y. pil_alpha (pix img n) = 0} \<and> r > 180 \<and> g > 180 \<and> b > 180"
    using assms by (simp add: should_clear_def transparent_neighbors_card)
  ultimately show ?thesis
    using \<open>a > 0\<close> by (simp add: pil_alpha_def)
qed

theorem cleanup_edges_interior_witness:
  "card {n \<in> neighbours8 1 1. pil_alpha (pix scenario_E n) = 0} = 8
   \<and> pix (cleanup_edges scenario_E) (1, 1) = (0, 0, 0, 255)
   \<and> pil_alpha (pix (cleanup_edges scenario_E) (1, 1)) \<noteq> 0"
proof -
  have "pix scenario_E (1, 1) = (0, 0, 0, 255)" "1 < width scenario_E - 1"
       "1 < height scenario_E - 1"
    by (simp_all add: scenario_E_def)
  from cleanup_edges_interior [OF _ this(2) _ this(3) this(1)]
  show ?thesis
    using scenario_E_neighbours by (simp add: pil_alpha_def)
qed

section \<open>Edge flood fill\<close>

lemma set_cells: "(i, j) \<in> set (cells h w) \<longleftrightarrow> i < h \<and> j < w"
  by (auto simp add: cells_def image_iff)

lemma set_border_cells:
  "c \<in> set (border_cells (height a) (width a)) \<longleftrightarrow> in_bounds a c \<and> is_border a c"
  by (cases c) (auto simp add: border_cells_def set_cells in_bounds_def is_border_def)

lemma set_offsets_grid:
  "set (map f (filter P (concat (map (\<lambda>dy. map (\<lambda>dx. g dy dx) ds) ds))))
     = {f (g dy dx) | dy dx. dy \<in> set ds \<and> dx \<in> set ds \<and> P (g dy dx)}"
  by auto

lemma set_neighbour_cells:
  assumes "n \<in> set (neighbour_cells h w c)"
  shows "fst n < h \<and> snd n < w \<and> (n = c \<or> adjacent8 c n)"
proof -
  obtain y x where c: "c = (y, x)" by (cases c)
  from assms obtain dy dx :: int where d: "dy \<in> set [-1, 0, 1]" "dx \<in> set [-1, 0, 1]"
    and b: "0 \<le> int y + dy" "int y + dy < int h" "0 \<le> int x + dx" "int x + dx < int w"
    and n: "n = (nat (int y + dy), nat (int x + dx))"
    unfolding neighbour_cells_def c prod.case set_offsets_grid by auto
  from d have "\<bar>dy\<bar> \<le> 1" "\<bar>dx\<bar> \<le> 1" by auto
  with b n show ?thesis
    by (auto simp add: c adjacent8_def)
qed

lemma not_light_transparent: "\<not> is_light_180 transparent"
  by (simp add: is_light_180_def transparent_def)

lemma pop_step_cases:
  assumes "fs_queue s = c # rest" and "in_bounds (fs_result s) c"
  shows "pop_step u s =
     (if fs_visited s c then Inr (s\<lparr>fs_queue := rest\<rparr>)
      else if \<not> is_light_180 (pix (fs_result s) c)
      then Inr (s\<lparr>fs_visited := (fs_visited s)(c := True), fs_queue := rest\<rparr>)
      else Inr \<lparr>fs_result = (fs_result s)\<lparr>pix := (pix (fs_result s))(c := transparent)\<rparr>,
                fs_visited = (fs_visited s)(c := True),
                fs_queue = rest @ filter (\<lambda>n. \<not> ((fs_visited s)(c := True)) n
                    \<and> color_diff u transparent
                         (((pix (fs_result s))(c := transparent)) n) < 60)
                  (neighbour_cells (height (fs_result s)) (width (fs_result s)) c)\<rparr>)"
  using assms by (simp add: pop_step_def Let_def)

lemma pop_step_inv:
  assumes inv: "flood_inv img s" and ne: "fs_queue s \<noteq> []"
  shows "\<exists>s'. pop_step u s = Inr s' \<and> flood_inv img s'"
proof -
  from ne obtain c rest where q: "fs_queue s = c # rest" by (cases "fs_queue s") auto
  from inv q have dims: "height (fs_result s) = height img" "width (fs_result s) = width img"
    and cin: "in_bounds img c"
    and csrc: "is_border img c \<or> (\<exists>d. light_reach img d \<and> adjacent8 d c)"
    and rest: "\<forall>c' \<in> set rest. in_bounds img c' \<and> (is_border img c' \<or> (\<exists>d. light_reach img d \<and> adjacent8 d c'))"
    and pixs: "\<forall>c'. pix (fs_result s) c' = pix img c'
               \<or> (pix (fs_result s) c' = transparent \<and> light_reach img c')"
    by (auto simp add: flood_inv_def)
  from cin dims have inb: "in_bounds (fs_result s) c" by (simp add: in_bounds_def)
  note step = pop_step_cases [OF q inb, of u]
  show ?thesis
  proof (cases "fs_visited s c")
    case True
    then show ?thesis using step inv q by (auto simp add: flood_inv_def)
  next
    case unvisited: False
    show ?thesis
    proof (cases "is_light_180 (pix (fs_result s) c)")
      case False
      then show ?thesis using step unvisited inv q by (auto simp add: flood_inv_def)
    next
      case True
      then have "pix (fs_result s) c \<noteq> transparent" using not_light_transparent by auto
      with pixs have same: "pix (fs_result s) c = pix img c" by metis
      with True have light: "is_light_180 (pix img c)" by simp
      have reach: "light_reach img c"
        using csrc
      proof
        assume "is_border img c"
        then show ?thesis using cin light by (simp add: light_reach.from_border)
      next
        assume "\<exists>d. light_reach img d \<and> adjacent8 d c"
        then obtain d where "light_reach img d" "adjacent8 d c" by blast
        then show ?thesis using cin light by (rule light_reach.from_neighbour)
      qed
      let ?s' = "\<lparr>fs_result = (fs_result s)\<lparr>pix := (pix (fs_result s))(c := transparent)\<rparr>,
                fs_visited = (fs_visited s)(c := True),
                fs_queue = rest @ filter (\<lambda>n. \<not> ((fs_visited s)(c := True)) n
                    \<and> color_diff u transparent
                         (((pix (fs_result s))(c := transparent)) n) < 60)
                  (neighbour_cells (height (fs_result s)) (width (fs_result s)) c)\<rparr>"
      have eq: "pop_step u s = Inr ?s'" using step unvisited True by simp
      have "flood_inv img ?s'"
        unfolding flood_inv_def
      proof (intro conjI)
        show "height (fs_result ?s') = height img" using dims by simp
        show "width (fs_result ?s') = width img" using dims by simp
        show "\<forall>c'. pix (fs_result ?s') c' = pix img c'
              \<or> (pix (fs_result ?s') c' = transparent \<and> light_reach img c')"
        proof
          fix c'
          show "pix (fs_result ?s') c' = pix img c'
              \<or> (pix (fs_result ?s') c' = transparent \<and> light_reach img c')"
            using pixs [rule_format, of c'] reach by (cases "c' = c") auto
        qed
        show "\<forall>n \<in> set (fs_queue ?s'). in_bounds img n
                \<and> (is_border img n \<or> (\<exists>d. light_reach img d \<and> adjacent8 d n))"
        proof
          fix n assume "n \<in> set (fs_queue ?s')"
          then consider "n \<in> set rest"
            | "n \<in> set (neighbour_cells (height img) (width img) c)" "n \<noteq> c"
            using dims by (auto split: if_splits)
          then show "in_bounds img n \<and> (is_border img n \<or> (\<exists>d. light_reach img d \<and> adjacent8 d n))"
          proof cases
            case 1
            then show ?thesis using rest by blast
          next
            case 2
            from set_neighbour_cells [OF 2(1)] 2(2)
            have "in_bounds img n" "adjacent8 c n"
              by (auto simp add: in_bounds_def split: prod.splits)
            then show ?thesis using reach by blast
          qed
        qed
      qed
      with eq show ?thesis by blast
    qed
  qed
qed

lemma flood_inv_initial: "flood_inv img (initial_state img)"
  by (simp add: flood_inv_def initial_state_def set_border_cells)

lemma flood_loop_inv:
  "flood_inv img s \<Longrightarrow>
     \<exists>r. flood_loop u s = Inr r \<and> height r = height img \<and> width r = width img
         \<and> (\<forall>c. pix r c = pix img c \<or> (pix r c = transparent \<and> light_reach img c))"
proof (induction u s rule: flood_loop.induct)
  case (1 u s)
  show ?case
  proof (cases "fs_queue s = []")
    case True
    then have "flood_loop u s = Inr (fs_result s)" by simp
    then show ?thesis using "1.prems" by (simp add: flood_inv_def)
  next
    case False
    from pop_step_inv [OF "1.prems" False, of u]
    obtain s' where s': "pop_step u s = Inr s'" "flood_inv img s'" by blast
    from False s' have "flood_loop u s = flood_loop u s'" by simp
    with "1.IH" [OF False s'] show ?thesis by simp
  qed
qed

lemma run_steps_empties:
  "flood_inv img s \<Longrightarrow>
     \<exists>n s'. run_steps n u s = Inr s' \<and> fs_queue s' = [] \<and> flood_loop u s = Inr (fs_result s')"
proof (induction u s rule: flood_loop.induct)
  case (1 u s)
  show ?case
  proof (cases "fs_queue s = []")
    case True
    then have "run_steps 0 u s = Inr s \<and> fs_queue s = [] \<and> flood_loop u s = Inr (fs_result s)"
      by simp
    then show ?thesis by blast
  next
    case False
    from pop_step_inv [OF "1.prems" False, of u]
    obtain s' where s': "pop_step u s = Inr s'" "flood_inv img s'" by blast
    from "1.IH" [OF False s'] obtain n t
      where t: "run_steps n u s' = Inr t" "fs_queue t = []" "flood_loop u s' = Inr (fs_result t)"
      by blast
    from False s' t have "run_steps (Suc n) u s = Inr t" by simp
    moreover from False s' t have "flood_loop u s = Inr (fs_result t)" by simp
    ultimately show ?thesis using t(2) by blast
  qed
qed

lemma pop_step_visited_mono:
  "pop_step u s = Inr s' \<Longrightarrow> fs_visited s c \<Longrightarrow> fs_visited s' c"
  by (auto simp add: pop_step_def Let_def split: list.splits if_splits)

lemma pop_step_marks_head:
  "pop_step u s = Inr s' \<Longrightarrow> fs_queue s \<noteq> [] \<Longrightarrow> fs_visited s' (hd (fs_queue s))"
  by (auto simp add: pop_step_def Let_def split: list.splits if_splits)

lemma processed_unvisited:
  "c \<in> set (processed_cells u s) \<Longrightarrow> \<not> fs_visited s c"
proof (induction u s rule: processed_cells.induct)
  case (1 u s)
  show ?case
  proof (cases "fs_queue s = []")
    case True
    with "1.prems" show ?thesis by simp
  next
    case False
    show ?thesis
    proof (cases "pop_step u s")
      case (Inl e)
      with False "1.prems" show ?thesis by simp
    next
      case (Inr s')
      with False "1.prems"
      have "c \<in> set (if fs_visited s (hd (fs_queue s)) then [] else [hd (fs_queue s)])
            \<or> c \<in> set (processed_cells u s')"
        by simp
      then show ?thesis
      proof
        assume "c \<in> set (if fs_visited s (hd (fs_queue s)) then [] else [hd (fs_queue s)])"
        then show ?thesis by (auto split: if_splits)
      next
        assume "c \<in> set (processed_cells u s')"
        then have "\<not> fs_visited s' c" using "1.IH" [OF False Inr] by simp
        then show ?thesis using pop_step_visited_mono [OF Inr] by blast
      qed
    qed
  qed
qed

lemma distinct_processed: "distinct (processed_cells u s)"
proof (induction u s rule: processed_cells.induct)
  case (1 u s)
  show ?case
  proof (cases "fs_queue s = []")
    case True
    then show ?thesis by simp
  next
    case False
    show ?thesis
    proof (cases "pop_step u s")
      case (Inl e)
      with False show ?thesis by simp
    next
      case (Inr s')
      have "hd (fs_queue s) \<notin> set (processed_cells u s')"
        using processed_unvisited [of "hd (fs_queue s)" u s'] pop_step_marks_head [OF Inr False]
        by blast
      with False Inr "1.IH" [OF False Inr] show ?thesis by simp
    qed
  qed
qed

lemma light_reach_path:
  "light_reach img p \<Longrightarrow>
     \<exists>ps. border_path img ps \<and> last ps = p \<and> (\<forall>c \<in> set ps. is_light_180 (pix img c))"
proof (induction rule: light_reach.induct)
  case (from_border c)
  then have "border_path img [c] \<and> last [c] = c \<and> (\<forall>x \<in> set [c]. is_light_180 (pix img x))"
    by (simp add: border_path_def)
  then show ?case by blast
next
  case (from_neighbour c d)
  then obtain ps where ps: "border_path img ps" "last ps = c"
      "\<forall>x \<in> set ps. is_light_180 (pix img x)"
    by blast
  from ps(1) have ne: "ps \<noteq> []" by (simp add: border_path_def)
  have "border_path img (ps @ [d])"
    using ps(1,2) ne from_neighbour.hyps
    by (simp add: border_path_def successively_append_iff)
  moreover have "last (ps @ [d]) = d" by simp
  moreover have "\<forall>x \<in> set (ps @ [d]). is_light_180 (pix img x)"
    using ps(3) from_neighbour.hyps by simp
  ultimately show ?case by blast
qed

lemma height_fold_white_gray:
  "height (fold (white_gray_step t) cs a) = height a \<and> width (fold (white_gray_step t) cs a) = width a"
  by (induction cs arbitrary: a) (auto simp add: white_gray_step_def Let_def split: prod.splits)

text \<open>
  Claim C8. Each of the three background-removal strategies (checkerboard, white/gray
  tolerance, edge flood fill) returns an image whose height and width are those of its
  input; the flood fill in particular returns an image and raises nothing.
\<close>

theorem strategies_preserve_dimensions:
  "height (remove_checkerboard_background img) = height img
   \<and> width (remove_checkerboard_background img) = width img
   \<and> height (remove_white_gray_background img tolerance) = height img
   \<and> width (remove_white_gray_background img tolerance) = width img
   \<and> (\<exists>r. remove_background_flood_fill u img = Inr r
          \<and> height r = height img \<and> width r = width img)"
proof -
  from flood_loop_inv [OF flood_inv_initial, where img = img and u = u]
  have "\<exists>r. remove_background_flood_fill u img = Inr r
          \<and> height r = height img \<and> width r = width img"
    by (auto simp add: remove_background_flood_fill_def)
  then show ?thesis
    by (simp add: remove_checkerboard_background_def remove_white_gray_background_def
        height_fold_white_gray)
qed

text \<open>
  Claim C9. The flood-fill loop terminates on every image: after finitely many iterations
  the work queue is empty and the loop returns the array of that state; the cells that
  are popped and not skipped are pairwise distinct, so each cell is processed at most
  once; and one iteration never unmarks a visited cell.
\<close>

theorem flood_fill_terminates:
  "(\<exists>n s'. run_steps n u (initial_state img) = Inr s' \<and> fs_queue s' = []
        \<and> remove_background_flood_fill u img = Inr (fs_result s'))
   \<and> distinct (processed_cells u (initial_state img))
   \<and> (\<forall>s s' c. pop_step u s = Inr s' \<and> fs_visited s c \<longrightarrow> fs_visited s' c)"
  using run_steps_empties [OF flood_inv_initial, where img = img and u = u] distinct_processed
    pop_step_visited_mono
  by (simp add: remove_background_flood_fill_def) blast

text \<open>
  Claim C5. The flood fill respects connectivity: a pixel such that every 8-connected
  path from a border pixel to it passes through a pixel that is not light (some channel
  at most 180) keeps its original value. The witness is the white centre of a 5x5 image,
  cut off from the white border by a ring of black pixels.
\<close>

theorem flood_fill_respects_walls:
  assumes "\<forall>ps. border_path img ps \<and> last ps = p \<longrightarrow> (\<exists>c \<in> set ps. \<not> is_light_180 (pix img c))"
  shows "\<exists>r. remove_background_flood_fill u img = Inr r \<and> pix r p = pix img p"
proof -
  from flood_loop_inv [OF flood_inv_initial, where img = img and u = u]
  obtain r where r: "remove_background_flood_fill u img = Inr r"
      "\<forall>c. pix r c = pix img c \<or> (pix r c = transparent \<and> light_reach img c)"
    by (auto simp add: remove_background_flood_fill_def)
  have "\<not> light_reach img p"
    using light_reach_path [of img p] assms by blast
  with r show ?thesis by blast
qed

lemma adjacent8_ring_distance: "adjacent8 c d \<Longrightarrow> ring_distance c \<le> ring_distance d + 1"
  by (cases c; cases d) (simp add: adjacent8_def ring_distance_def, arith)

lemma path_crosses_ring:
  "successively adjacent8 ps \<Longrightarrow> ps \<noteq> [] \<Longrightarrow> 1 \<le> ring_distance (hd ps)
     \<Longrightarrow> ring_distance (last ps) = 0 \<Longrightarrow> \<exists>c \<in> set ps. ring_distance c = 1"
proof (induction ps rule: induct_list012)
  case 1
  then show ?case by simp
next
  case (2 c)
  then show ?case by simp
next
  case (3 c d rest)
  show ?case
  proof (cases "ring_distance c = 1")
    case True
    then show ?thesis by simp
  next
    case False
    with 3 have "2 \<le> ring_distance c" by simp
    moreover from 3 have "adjacent8 c d" by simp
    ultimately have "1 \<le> ring_distance d"
      using adjacent8_ring_distance [of c d] by simp
    with 3 have "\<exists>x \<in> set (d # rest). ring_distance x = 1" by simp
    then show ?thesis by auto
  qed
qed

lemma ring5_border: "is_border ring5 c \<Longrightarrow> 2 \<le> ring_distance c"
  by (cases c) (auto simp add: is_border_def ring5_def ring_distance_def)

lemma ring5_isolated:
  "\<forall>ps. border_path ring5 ps \<and> last ps = (2, 2) \<longrightarrow> (\<exists>c \<in> set ps. \<not> is_light_180 (pix ring5 c))"
proof (intro allI impI)
  fix ps assume a: "border_path ring5 ps \<and> last ps = (2, 2)"
  then have "successively adjacent8 ps" "ps \<noteq> []" "1 \<le> ring_distance (hd ps)"
      "ring_distance (last ps) = 0"
    using ring5_border [of "hd ps"] by (auto simp add: border_path_def ring_distance_def)
  then obtain c where "c \<in> set ps" "ring_distance c = 1"
    using path_crosses_ring by blast
  then show "\<exists>c \<in> set ps. \<not> is_light_180 (pix ring5 c)"
    by (auto simp add: ring5_def is_light_180_def)
qed

theorem flood_fill_respects_walls_witness:
  "is_light_180 (pix ring5 (2, 2)) \<and> is_light_180 (pix ring5 (0, 0))
   \<and> (\<exists>r. remove_background_flood_fill True ring5 = Inr r
          \<and> pix r (2, 2) = (255, 255, 255, 255))"
  using flood_fill_respects_walls [OF ring5_isolated, of True]
  by (simp add: ring5_def ring_distance_def is_light_180_def)

lemma cells_3_3: "cells 3 3 = [(0,0),(0,1),(0,2),(1,0),(1,1),(1,2),(2,0),(2,1),(2,2)]"
  by (simp add: cells_def upt_rec)

lemma border_cells_3_3:
  "border_cells 3 3 = [(0,0),(0,1),(0,2),(1,0),(1,2),(2,0),(2,1),(2,2)]"
  by (simp add: border_cells_def cells_3_3)

theorem flood_fill_terminates_witness:
  "(\<exists>n s'. run_steps n True (initial_state gray3) = Inr s' \<and> fs_queue s' = []
        \<and> remove_background_flood_fill True gray3 = Inr (fs_result s'))
   \<and> distinct (processed_cells True (initial_state gray3))
   \<and> pop_step True visited_corner = Inr (visited_corner\<lparr>fs_queue := tl (border_cells 3 3)\<rparr>)
   \<and> fs_visited visited_corner (0, 0)
   \<and> fs_visited (visited_corner\<lparr>fs_queue := tl (border_cells 3 3)\<rparr>) (0, 0)"
proof -
  have step: "pop_step True visited_corner = Inr (visited_corner\<lparr>fs_queue := tl (border_cells 3 3)\<rparr>)"
    by (simp add: pop_step_def visited_corner_def initial_state_def gray3_def uniform_def
        border_cells_3_3 in_bounds_def)
  have v: "fs_visited visited_corner (0, 0)"
    by (simp add: visited_corner_def)
  from flood_fill_terminates [of True gray3] step v
  show ?thesis by blast
qed

lemma color_diff_zero_seed:
  "unat (- nr) + unat (- ng) + unat (- nb) < 256 \<Longrightarrow>
   color_diff u (0, 0, 0, 0) (nr, ng, nb, na) = unat (- nr) + unat (- ng) + unat (- nb)"
  by (cases u) (simp_all add: color_diff_def unat_word_ariths)

lemma neighbour_cells_3_3_corner: "neighbour_cells 3 3 (0, 0) = [(0, 0), (0, 1), (1, 0), (1, 1)]"
  by (simp add: neighbour_cells_def)

text \<open>
  Claim C3, at the 3x3 image of the single colour (200, 200, 200, 255). The claim has the
  loop enqueue the neighbours whose colour differs by less than 60 from the colour that
  the popped pixel had; popping \<open>(0, 0)\<close> that is the three neighbours \<open>(0, 1)\<close>, \<open>(1, 0)\<close>
  and \<open>(1, 1)\<close>, at difference 0. The code compares with the view \<open>seed_color\<close> after the
  pixel was overwritten, in uint8: each channel gives \<open>(0 - 200) mod 256 = 56\<close>, the sum
  is 168, and nothing is enqueued. The centre is never reached and stays opaque.
\<close>

theorem flood_fill_compares_with_zeroed_seed:
  "\<forall>u. pop_step u (initial_state gray3)
          = Inr \<lparr>fs_result = gray3\<lparr>pix := (pix gray3)((0, 0) := transparent)\<rparr>,
                 fs_visited = (\<lambda>c. c = (0, 0)),
                 fs_queue = tl (border_cells 3 3)\<rparr>
       \<and> filter (\<lambda>n. n \<noteq> (0, 0) \<and> abs_rgb_diff (pix gray3 (0, 0)) (pix gray3 n) < 60)
            (neighbour_cells 3 3 (0, 0)) = [(0, 1), (1, 0), (1, 1)]
       \<and> (\<exists>r. remove_background_flood_fill u gray3 = Inr r
              \<and> pix r (1, 1) = (200, 200, 200, 255))"
proof
  fix u
  have a: "pop_step u (initial_state gray3)
          = Inr \<lparr>fs_result = gray3\<lparr>pix := (pix gray3)((0, 0) := transparent)\<rparr>,
                 fs_visited = (\<lambda>c. c = (0, 0)),
                 fs_queue = tl (border_cells 3 3)\<rparr>"
    by (simp add: pop_step_def initial_state_def gray3_def uniform_def border_cells_3_3
        in_bounds_def is_light_180_def Let_def neighbour_cells_3_3_corner color_diff_zero_seed
        transparent_def fun_eq_iff)
  have b: "filter (\<lambda>n. n \<noteq> (0, 0) \<and> abs_rgb_diff (pix gray3 (0, 0)) (pix gray3 n) < 60)
            (neighbour_cells 3 3 (0, 0)) = [(0, 1), (1, 0), (1, 1)]"
    by (simp add: neighbour_cells_3_3_corner gray3_def uniform_def abs_rgb_diff_def)
  have c: "\<exists>r. remove_background_flood_fill u gray3 = Inr r
              \<and> pix r (1, 1) = (200, 200, 200, 255)"
    by (simp add: remove_background_flood_fill_def initial_state_def pop_step_def gray3_def
        uniform_def border_cells_3_3 in_bounds_def is_light_180_def Let_def neighbour_cells_def
        color_diff_zero_seed transparent_def)
  from a b c show "pop_step u (initial_state gray3)
          = Inr \<lparr>fs_result = gray3\<lparr>pix := (pix gray3)((0, 0) := transparent)\<rparr>,
                 fs_visited = (\<lambda>c. c = (0, 0)),
                 fs_queue = tl (border_cells 3 3)\<rparr>
       \<and> filter (\<lambda>n. n \<noteq> (0, 0) \<and> abs_rgb_diff (pix gray3 (0, 0)) (pix gray3 n) < 60)
            (neighbour_cells 3 3 (0, 0)) = [(0, 1), (1, 0), (1, 1)]
       \<and> (\<exists>r. remove_background_flood_fill u gray3 = Inr r
              \<and> pix r (1, 1) = (200, 200, 200, 255))"
    by blast
qed

section \<open>Rounding to binary64\<close>

lemma floor_numeral_quotient:
  "\<lfloor>(numeral a :: rat) / numeral b\<rfloor> = numeral a div numeral b"
  using floor_divide_of_int_eq [of "numeral a" "numeral b", where ?'a = rat] by simp

lemmas round_double_eval = round_double.simps round_half_even_def floor_numeral_quotient Let_def

lemma round_half_even_of_int: "round_half_even (of_int m) = m"
  by (simp add: round_half_even_def)

lemma round_half_even_lower: "of_int n \<le> x \<Longrightarrow> n \<le> round_half_even x"
proof -
  assume "of_int n \<le> x"
  then have "n \<le> \<lfloor>x\<rfloor>" by (simp add: le_floor_iff)
  then show ?thesis by (simp add: round_half_even_def Let_def)
qed

lemma round_half_even_upper:
  assumes "x \<le> of_int n"
  shows "round_half_even x \<le> n"
proof (cases "x = of_int n")
  case True
  then show ?thesis by (simp add: round_half_even_of_int)
next
  case False
  with assms have "x < of_int n" by simp
  then have "\<lfloor>x\<rfloor> < n" by (simp add: floor_less_iff)
  then show ?thesis by (simp add: round_half_even_def Let_def)
qed

lemma round_double_0: "round_double 0 = 0"
  by (simp add: round_double.simps)

lemma round_double_half: "round_double (1 / 2) = 1 / 2"
  by (simp add: round_double_eval)

lemma round_double_1: "round_double 1 = 1"
  by (simp add: round_double_eval)

lemma round_double_base:
  "1 / 2 \<le> q \<Longrightarrow> q < 1 \<Longrightarrow> round_double q = of_int (round_half_even (q * 2 ^ 53)) / 2 ^ 53"
  by (subst round_double.simps) simp

lemma round_double_small:
  "0 < q \<Longrightarrow> q < 1 / 2 \<Longrightarrow> round_double q = round_double (2 * q) / 2"
  by (subst round_double.simps) simp

lemma round_double_large:
  "1 \<le> q \<Longrightarrow> round_double q = 2 * round_double (q / 2)"
  by (subst round_double.simps) simp

lemma round_double_minus: "round_double (- q) = - round_double q"
proof (cases "q < 0")
  case True
  then show ?thesis by (subst (2) round_double.simps) simp
next
  case False
  show ?thesis
  proof (cases "q = 0")
    case True
    then show ?thesis by (simp add: round_double_0)
  next
    case False
    with \<open>\<not> q < 0\<close> have "- q < 0" by simp
    then show ?thesis by (subst round_double.simps) simp
  qed
qed

lemma round_double_base_bounds:
  assumes "1 / 2 \<le> q" "q < 1"
  shows "1 / 2 \<le> round_double q \<and> round_double q \<le> 1"
proof -
  let ?z = "round_half_even (q * 2 ^ 53)"
  have "(of_int (2 ^ 52) :: rat) \<le> q * 2 ^ 53" using assms(1) by simp
  then have lo: "2 ^ 52 \<le> ?z" by (rule round_half_even_lower)
  have "q * 2 ^ 53 \<le> (of_int (2 ^ 53) :: rat)" using assms(2) by simp
  then have hi: "?z \<le> 2 ^ 53" by (rule round_half_even_upper)
  from lo have "(of_int (2 ^ 52) :: rat) \<le> of_int ?z" by (simp only: of_int_le_iff)
  moreover from hi have "(of_int ?z :: rat) \<le> of_int (2 ^ 53)" by (simp only: of_int_le_iff)
  ultimately show ?thesis
    by (simp add: round_double_base [OF assms] field_simps)
qed

lemma round_double_unit:
  "0 \<le> q \<Longrightarrow> q \<le> 1 \<Longrightarrow> 0 \<le> round_double q \<and> round_double q \<le> 1"
proof (induction q rule: round_double.induct)
  case (1 q)
  show ?case
  proof (cases "q = 0 \<or> q = 1")
    case True
    then show ?thesis by (auto simp add: round_double_0 round_double_1)
  next
    case False
    with "1.prems" have q: "0 < q" "q < 1" by simp_all
    show ?thesis
    proof (cases "q < 1 / 2")
      case True
      with q "1.IH"(3) have "0 \<le> round_double (2 * q) \<and> round_double (2 * q) \<le> 1" by simp
      then show ?thesis using round_double_small [OF q(1) True] by simp
    next
      case False
      with q round_double_base_bounds [of q] show ?thesis by simp
    qed
  qed
qed

lemma round_double_le_pow2:
  "0 \<le> q \<Longrightarrow> q \<le> 2 ^ k \<Longrightarrow> round_double q \<le> 2 ^ k"
proof (induction k arbitrary: q)
  case 0
  then show ?case using round_double_unit [of q] by simp
next
  case (Suc k)
  show ?case
  proof (cases "1 \<le> q")
    case True
    have "round_double (q / 2) \<le> 2 ^ k"
      using Suc.prems by (intro Suc.IH) simp_all
    then show ?thesis using round_double_large [OF True] by simp
  next
    case False
    with Suc.prems round_double_unit [of q] have "round_double q \<le> 1" by simp
    moreover have "(1::rat) \<le> 2 ^ Suc k" by (rule one_le_power) simp
    ultimately show ?thesis by simp
  qed
qed

lemma double_0_3: "round_double (3 / 10) = 5404319552844595 / 2 ^ 54"
  by (simp add: round_double_eval)

lemma double_0_8: "round_double (8 / 10) = 7205759403792794 / 2 ^ 53"
  by (simp add: round_double_eval)

lemma round_double_grid:
  assumes "1 / 4 \<le> q" "q \<le> 1"
  shows "\<exists>m::int. round_double q = of_int m / 2 ^ 54"
proof (cases "q = 1")
  case True
  have "round_double 1 = of_int (2 ^ 54) / 2 ^ 54" by (simp add: round_double_1)
  with True show ?thesis by blast
next
  case False
  with assms have q: "q < 1" by simp
  show ?thesis
  proof (cases "q < 1 / 2")
    case True
    from assms(1) have "0 < q" by simp
    have "1 / 2 \<le> 2 * q" "2 * q < 1" using assms(1) True by simp_all
    from round_double_base [OF this] round_double_small [OF \<open>0 < q\<close> True]
    have "round_double q = of_int (round_half_even (2 * q * 2 ^ 53)) / 2 ^ 54" by simp
    then show ?thesis by blast
  next
    case False
    then have "1 / 2 \<le> q" by simp
    from round_double_base [OF this q]
    have "round_double q = of_int (2 * round_half_even (q * 2 ^ 53)) / 2 ^ 54" by simp
    then show ?thesis by blast
  qed
qed

lemma round_double_quarter:
  assumes "0 \<le> q" "q < 1 / 4"
  shows "round_double q \<le> 1 / 4"
proof (cases "q = 0")
  case True
  then show ?thesis by (simp add: round_double_0)
next
  case False
  with assms have q: "0 < q" "q < 1 / 2" "0 < 2 * q" "2 * q < 1 / 2" by simp_all
  have "round_double q = round_double (2 * (2 * q)) / 4"
    using round_double_small [OF q(1,2)] round_double_small [OF q(3,4)] by simp
  moreover have "round_double (2 * (2 * q)) \<le> 1"
    using round_double_unit [of "2 * (2 * q)"] assms by simp
  ultimately show ?thesis by simp
qed

lemma round_double_exact:
  "0 < x \<Longrightarrow> x < 1 / 2 \<Longrightarrow> x = of_int m / 2 ^ 54 \<Longrightarrow> round_double x = x"
proof (induction x arbitrary: m rule: round_double.induct)
  case (1 x)
  show ?case
  proof (cases "2 * x < 1 / 2")
    case True
    have n: "\<not> x < 0" "x \<noteq> 0" "\<not> 1 \<le> x" "x < 1 / 2" "0 < 2 * x"
      using "1.prems"(1,2) by simp_all
    have e: "2 * x = of_int (2 * m) / 2 ^ 54" using "1.prems"(3) by simp
    have "round_double (2 * x) = 2 * x"
      by (rule "1.IH"(3) [OF n True e])
    then show ?thesis using round_double_small [OF "1.prems"(1,2)] by simp
  next
    case False
    then have b: "1 / 2 \<le> 2 * x" "2 * x < 1" using "1.prems"(2) by simp_all
    have "2 * x * 2 ^ 53 = of_int m" using "1.prems"(3) by simp
    then have "round_double (2 * x) = of_int m / 2 ^ 53"
      using round_double_base [OF b] by (simp only: round_half_even_of_int)
    also have "\<dots> = 2 * x" using "1.prems"(3) by simp
    finally show ?thesis using round_double_small [OF "1.prems"(1,2)] by simp
  qed
qed

lemma round_double_exact_abs:
  assumes "\<bar>x\<bar> < 1 / 2" "x = of_int m / 2 ^ 54"
  shows "round_double x = x"
proof (cases "x = 0")
  case True
  then show ?thesis by (simp add: round_double_0)
next
  case False
  show ?thesis
  proof (cases "0 < x")
    case True
    with assms show ?thesis by (intro round_double_exact [of x m]) simp_all
  next
    case neg: False
    with False have "0 < - x" by simp
    moreover have "- x < 1 / 2" using assms(1) by simp
    moreover have "- x = of_int (- m) / 2 ^ 54" using assms(2) by simp
    ultimately have "round_double (- x) = - x" by (rule round_double_exact)
    then show ?thesis by (simp add: round_double_minus)
  qed
qed

lemma in_band_double:
  assumes "0 \<le> q" "q \<le> 1" "in_band (round_double q)"
  shows "3 / 10 < round_double q \<and> round_double q < 8 / 10
         \<and> half_distance (round_double q) = \<bar>round_double q - 1 / 2\<bar>"
proof -
  let ?t = "round_double q"
  from assms(3) have lo: "5404319552844595 / 2 ^ 54 < ?t" and hi: "?t < 7205759403792794 / 2 ^ 53"
    unfolding in_band_def double_0_3 double_0_8 by blast+
  have "\<not> q < 1 / 4"
  proof
    assume "q < 1 / 4"
    with assms(1) have "?t \<le> 1 / 4" by (rule round_double_quarter)
    with lo show False by simp
  qed
  then obtain m :: int where m: "?t = of_int m / 2 ^ 54"
    using round_double_grid [of q] assms(2) by auto
  from lo m have "(of_int 5404319552844595 :: rat) < of_int m" by (simp add: field_simps)
  then have "5404319552844595 < m" by (simp only: of_int_less_iff)
  then have "5404319552844596 \<le> m" by simp
  then have "(of_int 5404319552844596 :: rat) \<le> of_int m" by (simp only: of_int_le_iff)
  then have a: "3 / 10 < ?t" by (simp add: m field_simps)
  from hi m have "(of_int m :: rat) < of_int 14411518807585588" by (simp add: field_simps)
  then have "m < 14411518807585588" by (simp only: of_int_less_iff)
  then have "m \<le> 14411518807585587" by simp
  then have "(of_int m :: rat) \<le> of_int 14411518807585587" by (simp only: of_int_le_iff)
  then have b: "?t < 8 / 10" by (simp add: m field_simps)
  have "?t - 1 / 2 = of_int (m - 2 ^ 53) / 2 ^ 54" by (simp add: m field_simps)
  moreover have "\<bar>?t - 1 / 2\<bar> < 1 / 2" using a b by linarith
  ultimately have "round_double (?t - 1 / 2) = ?t - 1 / 2"
    by (intro round_double_exact_abs [of _ "m - 2 ^ 53"]) simp_all
  then show ?thesis using a b by (simp add: half_distance_def)
qed

section \<open>The best-result selector\<close>

lemma length_cells: "length (cells h w) = h * w"
  by (simp add: cells_def length_concat comp_def sum_list_triv)

lemma ratio_is_double:
  assumes "calculate_transparency_ratio r = Some t"
  shows "\<exists>q. 0 \<le> q \<and> q \<le> 1 \<and> t = round_double q"
proof -
  let ?k = "length (filter (\<lambda>p. alpha p = 0) (pixels_of r))"
  let ?n = "height r * width r"
  from assms have n: "?n \<noteq> 0" and t: "t = round_double (of_nat ?k / of_nat ?n)"
    by (auto simp add: calculate_transparency_ratio_def Let_def split: if_splits)
  have "?k \<le> length (pixels_of r)" by (rule length_filter_le)
  then have "?k \<le> ?n" by (simp add: pixels_of_def length_cells)
  then have "(of_nat ?k :: rat) \<le> of_nat ?n" by (simp only: of_nat_le_iff)
  with n have "(of_nat ?k / of_nat ?n :: rat) \<le> 1" by (simp add: field_simps)
  moreover have "0 \<le> (of_nat ?k / of_nat ?n :: rat)" by simp
  ultimately show ?thesis using t by blast
qed

lemma try_method_eq:
  "try_method u img m (best_result, best_method, output) =
     (case accepted_candidate u img m of
        None \<Rightarrow> (best_result, best_method, output)
      | Some (r, t) \<Rightarrow>
          (case best_result of
             None \<Rightarrow> (Some t, Some m, Some r)
           | Some best \<Rightarrow>
               if half_distance t < half_distance best then (Some t, Some m, Some r)
               else (best_result, best_method, output)))"
  by (simp add: try_method_def accepted_candidate_def split: option.splits)

lemma try_method_good:
  assumes "selector_good st acc"
  shows "selector_good (try_method u img m st)
           (acc @ (case accepted_candidate u img m of None \<Rightarrow> [] | Some x \<Rightarrow> [x]))"
proof -
  obtain br bm out where st: "st = (br, bm, out)" by (cases st)
  show ?thesis
  proof (cases "accepted_candidate u img m")
    case None
    with assms show ?thesis by (simp add: st try_method_eq)
  next
    case (Some x)
    obtain r t where x: "x = (r, t)" by (cases x)
    show ?thesis
    proof (cases br)
      case None
      with assms have "acc = []" by (auto simp add: st selector_good_def)
      with None Some x show ?thesis
        by (simp add: st try_method_eq selector_good_def)
    next
      case (Some best)
      with assms obtain r0 where r0: "bm \<noteq> None" "out = Some r0" "(r0, best) \<in> set acc"
        "\<forall>(r', t') \<in> set acc. half_distance best \<le> half_distance t'"
        by (auto simp add: st selector_good_def)
      show ?thesis
      proof (cases "half_distance t < half_distance best")
        case True
        with r0 Some \<open>accepted_candidate u img m = Some x\<close> x show ?thesis
          by (fastforce simp add: st try_method_eq selector_good_def)
      next
        case False
        with r0 Some \<open>accepted_candidate u img m = Some x\<close> x show ?thesis
          by (fastforce simp add: st try_method_eq selector_good_def)
      qed
    qed
  qed
qed

lemma fold_try_method_good:
  "selector_good st acc \<Longrightarrow>
     selector_good (fold (try_method u img) ms st)
       (acc @ List.map_filter (accepted_candidate u img) ms)"
proof (induction ms arbitrary: st acc)
  case Nil
  then show ?case by (simp add: map_filter_simps)
next
  case (Cons m ms)
  from Cons.IH [OF try_method_good [OF Cons.prems, of u img m]]
  show ?case
    by (cases "accepted_candidate u img m") (simp_all add: map_filter_simps)
qed

lemma selector_final:
  "selector_good (fold (try_method u img) methods (None, None, None)) (accepted_candidates u img)"
  using fold_try_method_good [of "(None, None, None)" "[]" u img methods]
  by (simp add: selector_good_def accepted_candidates_def methods_def)

lemma accepted_candidates_band:
  assumes "(r, t) \<in> set (accepted_candidates u img)"
  shows "in_band t \<and> calculate_transparency_ratio r = Some t"
proof -
  from assms obtain m where "accepted_candidate u img m = Some (r, t)"
    by (auto simp add: accepted_candidates_def map_filter_simps split: option.splits)
  then show ?thesis
    by (auto simp add: accepted_candidate_def split: option.splits if_splits)
qed

lemma accepted_candidates_exact:
  assumes "(r, t) \<in> set (accepted_candidates u img)"
  shows "3 / 10 < t \<and> t < 8 / 10 \<and> half_distance t = \<bar>t - 1 / 2\<bar>"
proof -
  from accepted_candidates_band [OF assms]
  have b: "in_band t" and c: "calculate_transparency_ratio r = Some t" by simp_all
  from ratio_is_double [OF c] obtain q where "0 \<le> q" "q \<le> 1" "t = round_double q" by blast
  with b in_band_double [of q] show ?thesis by simp
qed

text \<open>
  Claim C1. The best-result selector accepts a strategy's result only if its transparency
  ratio is strictly between 0.3 and 0.8; if some result is accepted, the image returned is
  an accepted one whose ratio is at least as close to 0.5 as that of every accepted
  result; if none is accepted, the selector returns what the white\_gray strategy
  returns, whatever its ratio. The ratio of a result is the float that
  \<open>calculate_transparency_ratio\<close> returns. For such a float the test against the float
  literals 0.3 and 0.8 is the test against 3/10 and 8/10, and the float distance to 0.5
  is the exact distance, so the statement speaks of the exact bounds and distances of
  the computed ratios. Two results whose computed ratios are equally far from 0.5 are
  both closest; the loop keeps the earlier one.
\<close>

theorem selector_picks_closest_or_falls_back:
  "(accepted_candidates u img = [] \<longrightarrow>
      process_single_cat_image u img = remove_complex_background u (Some WhiteGray) img)
   \<and> (accepted_candidates u img \<noteq> [] \<longrightarrow>
        (\<exists>(r, t) \<in> set (accepted_candidates u img).
           process_single_cat_image u img = Some r
           \<and> 3 / 10 < t \<and> t < 8 / 10
           \<and> calculate_transparency_ratio r = Some t
           \<and> (\<forall>(r', t') \<in> set (accepted_candidates u img). \<bar>t - 1 / 2\<bar> \<le> \<bar>t' - 1 / 2\<bar>)))"
proof -
  obtain br bm out where st: "fold (try_method u img) methods (None, None, None) = (br, bm, out)"
    by (cases "fold (try_method u img) methods (None, None, None)")
  let ?acc = "accepted_candidates u img"
  from selector_final [of u img] have good:
    "(?acc = [] \<and> br = None \<and> bm = None)
     \<or> (\<exists>r t. br = Some t \<and> bm \<noteq> None \<and> out = Some r \<and> (r, t) \<in> set ?acc
            \<and> (\<forall>(r', t') \<in> set ?acc. half_distance t \<le> half_distance t'))"
    unfolding st selector_good_def by simp
  have proc: "process_single_cat_image u img =
      (if bm \<noteq> None then out else remove_complex_background u (Some WhiteGray) img)"
    by (simp add: process_single_cat_image_def st)
  show ?thesis
  proof (intro conjI impI)
    assume "?acc = []"
    with good have "bm = None" by auto
    with proc show "process_single_cat_image u img = remove_complex_background u (Some WhiteGray) img"
      by simp
  next
    assume "?acc \<noteq> []"
    with good obtain r t where rt: "bm \<noteq> None" "out = Some r" "(r, t) \<in> set ?acc"
      "\<forall>(r', t') \<in> set ?acc. half_distance t \<le> half_distance t'"
      by blast
    from rt(1,2) proc have p: "process_single_cat_image u img = Some r" by simp
    have closest: "\<forall>(r', t') \<in> set ?acc. \<bar>t - 1 / 2\<bar> \<le> \<bar>t' - 1 / 2\<bar>"
    proof (intro ballI, clarify)
      fix r' t' assume m: "(r', t') \<in> set ?acc"
      with rt(4) have "half_distance t \<le> half_distance t'" by blast
      with accepted_candidates_exact [OF rt(3)] accepted_candidates_exact [OF m]
      show "\<bar>t - 1 / 2\<bar> \<le> \<bar>t' - 1 / 2\<bar>" by simp
    qed
    from p accepted_candidates_exact [OF rt(3)] accepted_candidates_band [OF rt(3)] closest rt(3)
    show "\<exists>(r, t) \<in> set ?acc.
           process_single_cat_image u img = Some r
           \<and> 3 / 10 < t \<and> t < 8 / 10
           \<and> calculate_transparency_ratio r = Some t
           \<and> (\<forall>(r', t') \<in> set ?acc. \<bar>t - 1 / 2\<bar> \<le> \<bar>t' - 1 / 2\<bar>)"
      by (intro bexI [of _ "(r, t)"]) simp_all
  qed
qed

section \<open>Scenario A and the images of the selector's witness\<close>

lemma in_band_half: "in_band (1 / 2)"
  unfolding in_band_def double_0_3 double_0_8 by simp

lemma not_in_band_0: "\<not> in_band 0"
  unfolding in_band_def double_0_3 double_0_8 by simp

lemma not_in_band_1: "\<not> in_band 1"
  unfolding in_band_def double_0_3 double_0_8 by simp

lemma np_brightness_le: "np_brightness p \<le> 85"
proof -
  obtain r g b a where p: "p = (r, g, b, a)" by (cases p)
  have "unat (r + g + b) \<le> 255"
    using unsigned_less [of "r + g + b", where ?'a = nat] by simp
  then have "(of_nat (unat (r + g + b)) :: rat) \<le> of_nat 255"
    by (simp only: of_nat_le_iff)
  then show ?thesis by (simp add: p np_brightness_def)
qed

lemma np_brightness_ge: "0 \<le> np_brightness p"
proof -
  obtain r g b a where p: "p = (r, g, b, a)" by (cases p)
  have "(0::rat) \<le> of_nat (unat (r + g + b))" by (rule of_nat_0_le_iff)
  then show ?thesis by (simp add: p np_brightness_def)
qed

lemma float_brightness_le: "float_brightness p \<le> 128"
proof -
  have "np_brightness p \<le> 2 ^ 7" using np_brightness_le [of p] by simp
  with np_brightness_ge [of p] have "round_double (np_brightness p) \<le> 2 ^ 7"
    by (rule round_double_le_pow2)
  then show ?thesis by (simp add: float_brightness_def)
qed

lemma white_gray_step_id: "white_gray_step tolerance c result = result"
proof -
  obtain r g b a where p: "pix result c = (r, g, b, a)" by (cases "pix result c")
  have "\<not> float_brightness (r, g, b, a) > 180"
    using float_brightness_le [of "(r, g, b, a)"] by simp
  then show ?thesis by (simp add: white_gray_step_def p Let_def)
qed

lemma remove_white_gray_background_id: "remove_white_gray_background img tolerance = img"
proof -
  have "fold (white_gray_step tolerance) cs a = a" for cs a
    by (induction cs) (simp_all add: white_gray_step_id)
  then show ?thesis by (simp add: remove_white_gray_background_def)
qed

lemma ratio_uniform_opaque:
  assumes "alpha p \<noteq> 0" and "0 < h * w"
  shows "calculate_transparency_ratio (uniform h w p) = Some 0"
proof -
  have "filter (\<lambda>q. alpha q = 0) (map (\<lambda>c. p) cs) = []" for cs :: "(nat \<times> nat) list"
    using assms(1) by (induction cs) simp_all
  then show ?thesis
    using assms(2)
    by (simp add: calculate_transparency_ratio_def round_double_0 round_double_half
      round_double_1 pixels_of_def uniform_def)
qed

lemma cells_1_2: "cells (Suc 0) 2 = [(0, 0), (0, 1)]"
  by (simp add: cells_def upt_rec)

lemma ratio_1_2:
  assumes "height r = 1" "width r = 2" "alpha (pix r (0, 0)) = 0" "alpha (pix r (0, 1)) \<noteq> 0"
  shows "calculate_transparency_ratio r = Some (1 / 2)"
  using assms by (simp add: calculate_transparency_ratio_def round_double_0 round_double_half
      round_double_1 pixels_of_def cells_1_2)

lemma checkerboard_white_black:
  "calculate_transparency_ratio (remove_checkerboard_background white_black) = Some (1 / 2)"
proof (rule ratio_1_2)
  have m: "checkerboard_mask white_black (0, 0)" "\<not> checkerboard_mask white_black (0, 1)"
    by (simp_all add: checkerboard_mask_def white_black_def cells_1_2 block_origins_def
        range_step2_def is_light_220_def white_def black_def)
  show "height (remove_checkerboard_background white_black) = 1"
       "width (remove_checkerboard_background white_black) = 2"
    by (simp_all add: remove_checkerboard_background_def white_black_def)
  show "alpha (pix (remove_checkerboard_background white_black) (0, 0)) = 0"
       "alpha (pix (remove_checkerboard_background white_black) (0, 1)) \<noteq> 0"
    using m by (simp_all add: remove_checkerboard_background_def transparent_def alpha_def
        white_black_def black_def)
qed

lemma flood_white_black:
  "\<exists>r. remove_background_flood_fill u white_black = Inr r
       \<and> calculate_transparency_ratio r = Some (1 / 2)"
proof -
  have "\<exists>r. remove_background_flood_fill u white_black = Inr r
       \<and> height r = 1 \<and> width r = 2 \<and> alpha (pix r (0, 0)) = 0 \<and> alpha (pix r (0, 1)) \<noteq> 0"
    by (simp add: remove_background_flood_fill_def initial_state_def pop_step_def white_black_def
      border_cells_def cells_1_2 in_bounds_def is_light_180_def Let_def neighbour_cells_def
      color_diff_zero_seed transparent_def white_def black_def alpha_def)
  then show ?thesis using ratio_1_2 by blast
qed

lemma white_gray_white_black:
  "calculate_transparency_ratio (remove_white_gray_background white_black 40) = Some 0"
  by (simp add: remove_white_gray_background_id calculate_transparency_ratio_def round_double_0 round_double_half
      round_double_1 pixels_of_def
      white_black_def cells_1_2 white_def black_def alpha_def)

lemma accepted_white_black: "map snd (accepted_candidates u white_black) = [1 / 2, 1 / 2]"
  using flood_white_black [of u]
  by (auto simp add: accepted_candidates_def accepted_candidate_def in_band_half not_in_band_0 not_in_band_1 map_filter_simps
      remove_complex_background_def checkerboard_white_black white_gray_white_black)

lemma flood_loop_rule:
  assumes "I s"
    and step: "\<And>s. I s \<Longrightarrow> fs_queue s \<noteq> [] \<Longrightarrow> \<exists>s'. pop_step u s = Inr s' \<and> I s'"
  shows "\<exists>t. flood_loop u s = Inr (fs_result t) \<and> I t \<and> fs_queue t = []"
  using assms
proof (induction u s rule: flood_loop.induct)
  case (1 u s)
  show ?case
  proof (cases "fs_queue s = []")
    case True
    then have "flood_loop u s = Inr (fs_result s)" by simp
    with True "1.prems" show ?thesis by blast
  next
    case False
    from "1.prems"(2) [OF "1.prems"(1) False]
    obtain s' where s': "pop_step u s = Inr s'" "I s'" by blast
    from False s' have "flood_loop u s = flood_loop u s'" by simp
    with "1.IH" [OF False s'(1) s'(2) "1.prems"(2)] show ?thesis by simp
  qed
qed

lemma color_diff_white: "color_diff u transparent white = 3"
  by (cases u) (simp_all add: color_diff_def transparent_def white_def)

lemma light_white: "is_light_180 white"
  by (simp add: is_light_180_def white_def)

lemma neighbour_cells_in_bounds:
  "n \<in> set (neighbour_cells (height img) (width img) c) \<Longrightarrow> in_bounds img n"
  using set_neighbour_cells [of n "height img" "width img" c]
  by (cases n) (simp add: in_bounds_def)

lemma white_inv_step:
  assumes inv: "white_inv img s" and ne: "fs_queue s \<noteq> []"
  shows "\<exists>s'. pop_step u s = Inr s' \<and> white_inv img s'"
proof -
  from ne obtain c rest where q: "fs_queue s = c # rest" by (cases "fs_queue s") auto
  from inv have dims: "height (fs_result s) = height img" "width (fs_result s) = width img"
    and pixs: "\<And>d. in_bounds img d \<Longrightarrow>
                 pix (fs_result s) d = (if fs_visited s d then transparent else white)"
    and qin: "\<And>d. d \<in> set (fs_queue s) \<Longrightarrow> in_bounds img d"
    and bord: "\<And>d. in_bounds img d \<Longrightarrow> is_border img d \<Longrightarrow> fs_visited s d \<or> d \<in> set (fs_queue s)"
    and nbrs: "\<And>d n. in_bounds img d \<Longrightarrow> fs_visited s d
                 \<Longrightarrow> n \<in> set (neighbour_cells (height img) (width img) d)
                 \<Longrightarrow> fs_visited s n \<or> n \<in> set (fs_queue s)"
    unfolding white_inv_def by blast+
  from qin q have cin: "in_bounds img c" by simp
  with dims have inb: "in_bounds (fs_result s) c" by (simp add: in_bounds_def)
  note step = pop_step_cases [OF q inb, of u]
  show ?thesis
  proof (cases "fs_visited s c")
    case True
    let ?s' = "s\<lparr>fs_queue := rest\<rparr>"
    have "pop_step u s = Inr ?s'" using step True by simp
    moreover have "white_inv img ?s'"
      unfolding white_inv_def
    proof (intro conjI allI impI ballI)
      fix d assume "in_bounds img d \<and> is_border img d"
      then show "fs_visited ?s' d \<or> d \<in> set (fs_queue ?s')"
        using bord [of d] q True by auto
    next
      fix d n assume "in_bounds img d \<and> fs_visited ?s' d"
        and "n \<in> set (neighbour_cells (height img) (width img) d)"
      then show "fs_visited ?s' n \<or> n \<in> set (fs_queue ?s')"
        using nbrs [of d n] q True by auto
    qed (use dims pixs qin q in auto)
    ultimately show ?thesis by blast
  next
    case False
    with pixs [OF cin] have "pix (fs_result s) c = white" by simp
    then have light: "is_light_180 (pix (fs_result s) c)" by (simp add: light_white)
    let ?v = "(fs_visited s)(c := True)"
    let ?p = "(pix (fs_result s))(c := transparent)"
    let ?new = "filter (\<lambda>n. \<not> ?v n \<and> color_diff u transparent (?p n) < 60)
                  (neighbour_cells (height (fs_result s)) (width (fs_result s)) c)"
    let ?s' = "\<lparr>fs_result = (fs_result s)\<lparr>pix := ?p\<rparr>, fs_visited = ?v,
                fs_queue = rest @ ?new\<rparr>"
    have eq: "pop_step u s = Inr ?s'" using step False light by simp
    have new: "n \<in> set ?new" if "n \<in> set (neighbour_cells (height img) (width img) c)"
      and "\<not> ?v n" for n
    proof -
      from that(2) have "n \<noteq> c" "\<not> fs_visited s n" by (auto split: if_splits)
      moreover from that(1) have "in_bounds img n" by (rule neighbour_cells_in_bounds)
      ultimately have "?p n = white" using pixs [of n] by simp
      then show ?thesis using that dims by (simp add: color_diff_white)
    qed
    have "white_inv img ?s'"
      unfolding white_inv_def
    proof (intro conjI allI impI ballI)
      show "height (fs_result ?s') = height img" "width (fs_result ?s') = width img"
        using dims by simp_all
    next
      fix d assume "in_bounds img d"
      then show "pix (fs_result ?s') d = (if fs_visited ?s' d then transparent else white)"
        using pixs [of d] by simp
    next
      fix d assume "d \<in> set (fs_queue ?s')"
      then show "in_bounds img d"
        using qin [of d] q dims neighbour_cells_in_bounds [of d img c] by auto
    next
      fix d assume "in_bounds img d \<and> is_border img d"
      then show "fs_visited ?s' d \<or> d \<in> set (fs_queue ?s')"
        using bord [of d] q by auto
    next
      fix d n assume d: "in_bounds img d \<and> fs_visited ?s' d"
        and n: "n \<in> set (neighbour_cells (height img) (width img) d)"
      show "fs_visited ?s' n \<or> n \<in> set (fs_queue ?s')"
      proof (cases "d = c")
        case True
        with n new [of n] show ?thesis by auto
      next
        case False
        with d have "fs_visited s d" by simp
        with d n nbrs [of d n] q show ?thesis by auto
      qed
    qed
    with eq show ?thesis by blast
  qed
qed

lemma in_bounds_uniform: "in_bounds (uniform h w p) c \<longleftrightarrow> fst c < h \<and> snd c < w"
  by (cases c) (simp add: in_bounds_def uniform_def)

lemma white_inv_initial: "white_inv (uniform h w white) (initial_state (uniform h w white))"
  unfolding white_inv_def
  by (simp add: initial_state_def set_border_cells) (simp add: uniform_def)

lemma neighbour_below:
  assumes "Suc i < h" "j < w"
  shows "(Suc i, j) \<in> set (neighbour_cells h w (i, j))"
proof -
  have "(Suc i, j) = (nat (int i + 1), nat (int j + 0))" by simp
  moreover have "(1::int) \<in> set [-1, 0, 1]" "(0::int) \<in> set [-1, 0, 1]" by simp_all
  moreover have "0 \<le> int i + 1 \<and> int i + 1 < int h \<and> 0 \<le> int j + 0 \<and> int j + 0 < int w"
    using assms by simp
  ultimately show ?thesis
    unfolding neighbour_cells_def prod.case set_offsets_grid by blast
qed

lemma white_inv_all_visited:
  assumes "white_inv img t" "fs_queue t = []"
  shows "in_bounds img (i, j) \<Longrightarrow> fs_visited t (i, j)"
proof (induction i)
  case 0
  then have "is_border img (0, j)" by (simp add: is_border_def)
  with 0 assms show ?case unfolding white_inv_def by auto
next
  case (Suc i)
  then have b: "Suc i < height img" "j < width img" by (simp_all add: in_bounds_def)
  then have "in_bounds img (i, j)" by (simp add: in_bounds_def)
  with Suc.IH have "fs_visited t (i, j)" "in_bounds img (i, j)" by simp_all
  moreover have "(Suc i, j) \<in> set (neighbour_cells (height img) (width img) (i, j))"
    using b by (rule neighbour_below)
  ultimately show ?case
    using assms unfolding white_inv_def by (metis empty_iff list.set(1))
qed

lemma flood_fill_uniform_white:
  "\<exists>r. remove_background_flood_fill u (uniform h w white) = Inr r
       \<and> height r = h \<and> width r = w
       \<and> (\<forall>c. in_bounds r c \<longrightarrow> pix r c = transparent)"
proof -
  let ?img = "uniform h w white"
  from flood_loop_rule [of "white_inv ?img" "initial_state ?img" u,
      OF white_inv_initial white_inv_step]
  obtain t where t: "flood_loop u (initial_state ?img) = Inr (fs_result t)"
      "white_inv ?img t" "fs_queue t = []"
    by blast
  have dims: "height (fs_result t) = h" "width (fs_result t) = w"
    using t(2) by (simp_all add: white_inv_def uniform_def)
  have "pix (fs_result t) c = transparent" if "in_bounds (fs_result t) c" for c
  proof -
    from that dims have inb: "in_bounds ?img c"
      by (cases c) (simp add: in_bounds_def uniform_def)
    then have "fs_visited t c"
      using white_inv_all_visited [OF t(2,3), of "fst c" "snd c"] by simp
    with t(2) inb show ?thesis unfolding white_inv_def by (cases c) auto
  qed
  with t(1) dims show ?thesis
    by (simp add: remove_background_flood_fill_def)
qed

lemma ratio_all_transparent:
  assumes "\<forall>c. in_bounds r c \<longrightarrow> pix r c = transparent" and "0 < height r * width r"
  shows "calculate_transparency_ratio r = Some 1"
proof -
  have "\<forall>c \<in> set (cells (height r) (width r)). alpha (pix r c) = 0"
    using assms(1) by (auto simp add: set_cells in_bounds_def transparent_def alpha_def)
  then have "filter (\<lambda>p. alpha p = 0) (pixels_of r) = pixels_of r"
    by (simp add: pixels_of_def filter_map comp_def)
  then have "length (filter (\<lambda>p. alpha p = 0) (pixels_of r)) = height r * width r"
    by (simp add: pixels_of_def length_cells)
  with assms(2) show ?thesis
    by (simp add: calculate_transparency_ratio_def round_double_0 round_double_half
      round_double_1)
qed

lemma fold_mark:
  "fold (\<lambda>c bmask. if P c then bmask(c := True) else bmask) cs m0 c
     \<longleftrightarrow> m0 c \<or> (c \<in> set cs \<and> P c)"
  by (induction cs arbitrary: m0) auto

lemma checkerboard_mask_light:
  "in_bounds img c \<Longrightarrow> is_light_220 (pix img c) \<Longrightarrow> checkerboard_mask img c"
  by (cases c) (simp add: checkerboard_mask_def Let_def fold_mark set_cells in_bounds_def)

lemma checkerboard_uniform_white:
  "in_bounds (uniform h w white) c \<Longrightarrow>
     pix (remove_checkerboard_background (uniform h w white)) c = transparent"
  using checkerboard_mask_light [of "uniform h w white" c]
  by (simp add: remove_checkerboard_background_def Let_def is_light_220_def white_def uniform_def)

lemma selector_fallback:
  assumes "accepted_candidates u img = []"
  shows "process_single_cat_image u img = remove_complex_background u (Some WhiteGray) img"
proof -
  obtain br bm out where st: "fold (try_method u img) methods (None, None, None) = (br, bm, out)"
    by (cases "fold (try_method u img) methods (None, None, None)")
  from selector_final [of u img] assms have "bm = None"
    unfolding st selector_good_def by auto
  then show ?thesis by (simp add: process_single_cat_image_def st)
qed

lemma accepted_scenario_A: "accepted_candidates u scenario_A = []"
proof -
  obtain r where r: "remove_background_flood_fill u scenario_A = Inr r"
      "height r = 64" "width r = 64" "\<forall>c. in_bounds r c \<longrightarrow> pix r c = transparent"
    using flood_fill_uniform_white [of u 64 64] unfolding scenario_A_def by blast
  have f: "calculate_transparency_ratio r = Some 1"
    using r by (intro ratio_all_transparent) simp_all
  have c: "calculate_transparency_ratio (remove_checkerboard_background scenario_A) = Some 1"
  proof (rule ratio_all_transparent)
    show "\<forall>c. in_bounds (remove_checkerboard_background scenario_A) c \<longrightarrow>
           pix (remove_checkerboard_background scenario_A) c = transparent"
      using checkerboard_uniform_white [of 64 64]
      by (simp add: scenario_A_def in_bounds_def remove_checkerboard_background_def)
    show "0 < height (remove_checkerboard_background scenario_A)
            * width (remove_checkerboard_background scenario_A)"
      by (simp add: scenario_A_def remove_checkerboard_background_def uniform_def)
  qed
  have w: "calculate_transparency_ratio (remove_white_gray_background scenario_A 40) = Some 0"
    by (simp add: remove_white_gray_background_id scenario_A_def ratio_uniform_opaque white_def
        alpha_def)
  show ?thesis
    by (simp add: accepted_candidates_def accepted_candidate_def in_band_half not_in_band_0 not_in_band_1 map_filter_simps
        remove_complex_background_def r(1) f c w)
qed

text \<open>
  Claim C2, on Scenario A, the 64x64 image of pixels (255, 255, 255, 255). In uint8 the
  sum 255 + 255 + 255 is 253, so the brightness of a white pixel is 253 / 3, not above
  180: the white/gray strategy returns the image unchanged, with transparency ratio 0,
  not 1. The other two strategies make the image fully transparent (ratio 1), no result
  is accepted, and the selector falls back to the white\_gray result, which is the fully
  opaque input.
\<close>

theorem white_gray_keeps_white_image_opaque:
  "\<forall>u. np_brightness white = 253 / 3
       \<and> remove_white_gray_background scenario_A 40 = scenario_A
       \<and> calculate_transparency_ratio (remove_white_gray_background scenario_A 40) = Some 0
       \<and> accepted_candidates u scenario_A = []
       \<and> process_single_cat_image u scenario_A = Some scenario_A"
proof
  fix u
  have "np_brightness white = 253 / 3"
    by (simp add: np_brightness_def white_def)
  moreover have "calculate_transparency_ratio (remove_white_gray_background scenario_A 40) = Some 0"
    by (simp add: remove_white_gray_background_id scenario_A_def ratio_uniform_opaque white_def
        alpha_def)
  moreover have "process_single_cat_image u scenario_A = Some scenario_A"
    using selector_fallback [OF accepted_scenario_A, of u]
    by (simp add: remove_complex_background_def remove_white_gray_background_id)
  ultimately show "np_brightness white = 253 / 3
       \<and> remove_white_gray_background scenario_A 40 = scenario_A
       \<and> calculate_transparency_ratio (remove_white_gray_background scenario_A 40) = Some 0
       \<and> accepted_candidates u scenario_A = []
       \<and> process_single_cat_image u scenario_A = Some scenario_A"
    using accepted_scenario_A [of u] by (simp add: remove_white_gray_background_id)
qed

lemma cells_1_3: "cells (Suc 0) 3 = [(0, 0), (0, 1), (0, 2)]"
  by (simp add: cells_def upt_rec)

lemma double_third: "round_double (1 / 3) = 6004799503160661 / 2 ^ 54"
  by (simp add: round_double_eval)

lemma double_two_thirds: "round_double (2 / 3) = 6004799503160661 / 2 ^ 53"
  by (simp add: round_double_eval)

lemma checkerboard_white_gray_black:
  "calculate_transparency_ratio (remove_checkerboard_background white_gray_black)
     = Some (round_double (1 / 3))"
proof -
  have m: "checkerboard_mask white_gray_black (0, 0)" "\<not> checkerboard_mask white_gray_black (0, 1)"
      "\<not> checkerboard_mask white_gray_black (0, 2)"
    by (simp_all add: checkerboard_mask_def white_gray_black_def cells_1_3 block_origins_def
        range_step2_def is_light_220_def white_def black_def)
  then show ?thesis
    by (simp add: calculate_transparency_ratio_def pixels_of_def cells_1_3
        remove_checkerboard_background_def transparent_def alpha_def white_gray_black_def
        black_def)
qed

lemma flood_white_gray_black:
  "\<exists>r. remove_background_flood_fill u white_gray_black = Inr r
       \<and> calculate_transparency_ratio r = Some (round_double (2 / 3))"
proof -
  have "\<exists>r. remove_background_flood_fill u white_gray_black = Inr r
       \<and> height r = 1 \<and> width r = 3 \<and> alpha (pix r (0, 0)) = 0 \<and> alpha (pix r (0, 1)) = 0
       \<and> alpha (pix r (0, 2)) \<noteq> 0"
    by (simp add: remove_background_flood_fill_def initial_state_def pop_step_def
      white_gray_black_def border_cells_def cells_1_3 in_bounds_def is_light_180_def Let_def
      neighbour_cells_def color_diff_zero_seed transparent_def white_def black_def alpha_def)
  then obtain r where r: "remove_background_flood_fill u white_gray_black = Inr r"
      "height r = 1" "width r = 3" "alpha (pix r (0, 0)) = 0" "alpha (pix r (0, 1)) = 0"
      "alpha (pix r (0, 2)) \<noteq> 0"
    by blast
  then have "calculate_transparency_ratio r = Some (round_double (2 / 3))"
    by (simp add: calculate_transparency_ratio_def pixels_of_def cells_1_3)
  with r(1) show ?thesis by blast
qed

lemma white_gray_white_gray_black:
  "calculate_transparency_ratio (remove_white_gray_background white_gray_black 40) = Some 0"
  by (simp add: remove_white_gray_background_id calculate_transparency_ratio_def pixels_of_def
      white_gray_black_def cells_1_3 white_def black_def alpha_def round_double_0)

lemma in_band_thirds: "in_band (round_double (1 / 3))" "in_band (round_double (2 / 3))"
  unfolding in_band_def double_0_3 double_0_8 double_third double_two_thirds by simp_all

lemma accepted_white_gray_black:
  "map snd (accepted_candidates u white_gray_black) = [round_double (1 / 3), round_double (2 / 3)]"
  using flood_white_gray_black [of u]
  by (auto simp add: accepted_candidates_def accepted_candidate_def map_filter_simps
      remove_complex_background_def checkerboard_white_gray_black white_gray_white_gray_black
      in_band_thirds not_in_band_0)

theorem selector_picks_closest_or_falls_back_witness:
  "accepted_candidates True scenario_A = []
   \<and> process_single_cat_image True scenario_A
       = remove_complex_background True (Some WhiteGray) scenario_A
   \<and> map snd (accepted_candidates True white_black) = [1 / 2, 1 / 2]
   \<and> (\<exists>r. process_single_cat_image True white_black = Some r
          \<and> calculate_transparency_ratio r = Some (1 / 2))
   \<and> map snd (accepted_candidates True white_gray_black)
       = [6004799503160661 / 2 ^ 54, 6004799503160661 / 2 ^ 53]
   \<and> (\<exists>r. process_single_cat_image True white_gray_black = Some r
          \<and> calculate_transparency_ratio r = Some (6004799503160661 / 2 ^ 53))"
proof -
  have a: "accepted_candidates True scenario_A = []" by (rule accepted_scenario_A)
  have b: "map snd (accepted_candidates True white_black) = [1 / 2, 1 / 2]"
    by (rule accepted_white_black)
  then have ne: "accepted_candidates True white_black \<noteq> []" by auto
  have c: "map snd (accepted_candidates True white_gray_black)
       = [6004799503160661 / 2 ^ 54, 6004799503160661 / 2 ^ 53]"
    by (simp only: accepted_white_gray_black double_third double_two_thirds)
  then have ne3: "accepted_candidates True white_gray_black \<noteq> []" by auto
  from selector_picks_closest_or_falls_back [of True scenario_A] a
  have 1: "process_single_cat_image True scenario_A
       = remove_complex_background True (Some WhiteGray) scenario_A"
    by simp
  from selector_picks_closest_or_falls_back [of True white_black] ne
  obtain r t where rt: "(r, t) \<in> set (accepted_candidates True white_black)"
      "process_single_cat_image True white_black = Some r"
      "calculate_transparency_ratio r = Some t"
    by auto
  from rt(1) have "t \<in> set (map snd (accepted_candidates True white_black))" by force
  with b have "t = 1 / 2" by simp
  with rt have 2: "\<exists>r. process_single_cat_image True white_black = Some r
          \<and> calculate_transparency_ratio r = Some (1 / 2)"
    by blast
  from selector_picks_closest_or_falls_back [of True white_gray_black] ne3
  obtain r3 t3 where r3: "(r3, t3) \<in> set (accepted_candidates True white_gray_black)"
      "process_single_cat_image True white_gray_black = Some r3"
      "calculate_transparency_ratio r3 = Some t3"
      "\<forall>(r', t') \<in> set (accepted_candidates True white_gray_black).
          \<bar>t3 - 1 / 2\<bar> \<le> \<bar>t' - 1 / 2\<bar>"
    by auto
  have mem: "\<forall>t' \<in> set (map snd (accepted_candidates True white_gray_black)).
      \<bar>t3 - 1 / 2\<bar> \<le> \<bar>t' - 1 / 2\<bar>"
    using r3(4) by auto
  from r3(1) have "t3 \<in> set (map snd (accepted_candidates True white_gray_black))" by force
  with c have "t3 = 6004799503160661 / 2 ^ 54 \<or> t3 = 6004799503160661 / 2 ^ 53" by simp
  moreover have "t3 \<noteq> 6004799503160661 / 2 ^ 54"
  proof
    assume e: "t3 = 6004799503160661 / 2 ^ 54"
    have "(6004799503160661 / 2 ^ 53 :: rat)
            \<in> set (map snd (accepted_candidates True white_gray_black))"
      by (simp only: c) simp
    with mem have "\<bar>t3 - 1 / 2\<bar> \<le> \<bar>6004799503160661 / 2 ^ 53 - 1 / 2\<bar>" by blast
    then show False by (simp add: e)
  qed
  ultimately have "t3 = 6004799503160661 / 2 ^ 53" by simp
  with r3 have 3: "\<exists>r. process_single_cat_image True white_gray_black = Some r
          \<and> calculate_transparency_ratio r = Some (6004799503160661 / 2 ^ 53)"
    by blast
  from a b c 1 2 3 show ?thesis by blast
qed

section \<open>Sprite sheet assembly\<close>

lemma in_cell_iff:
  assumes "0 < (fw::nat)"
  shows "a * fw \<le> x \<and> x < a * fw + fw \<longleftrightarrow> x div fw = a"
proof
  assume "a * fw \<le> x \<and> x < a * fw + fw"
  then have "a * fw \<le> x" "x < Suc a * fw" by simp_all
  then show "x div fw = a"
    using assms by (simp add: div_nat_eqI mult.commute)
next
  assume "x div fw = a"
  then have "x = a * fw + x mod fw" by (metis div_mult_mod_eq)
  moreover have "x mod fw < fw" using assms by simp
  ultimately show "a * fw \<le> x \<and> x < a * fw + fw" by linarith
qed

lemma cell_index_iff:
  assumes "0 < (c::nat)" "col < c"
  shows "col = i mod c \<and> row = i div c \<longleftrightarrow> i = row * c + col"
  using assms by auto

lemma pix_paste:
  "pix (paste blend sheet frame (x0, y0)) (x, y) =
     (if x0 \<le> x \<and> x < x0 + width frame \<and> y0 \<le> y \<and> y < y0 + height frame
         \<and> x < width sheet \<and> y < height sheet
      then blend (pix frame (x - x0, y - y0)) (pix sheet (x, y))
      else pix sheet (x, y))"
  by (simp add: paste_def)

lemma shape_paste:
  "height (paste blend sheet frame pos) = height sheet
   \<and> width (paste blend sheet frame pos) = width sheet"
  by (cases pos) (simp add: paste_def)

lemma shape_paste_frames:
  "paste_frames resize blend c fw fh fs sheet = Some sheet' \<Longrightarrow>
     height sheet' = height sheet \<and> width sheet' = width sheet"
proof (induction resize blend c fw fh fs sheet rule: paste_frames.induct)
  case (1 resize blend c fw fh sheet)
  then show ?case by simp
next
  case (2 resize blend c fw fh i rest sheet)
  then show ?case by simp
next
  case (3 resize blend c fw fh i frame rest sheet)
  then show ?case
    by (auto simp add: Let_def shape_paste split: option.splits)
qed

lemma paste_frames_pix:
  assumes "paste_frames resize blend c fw fh fs sheet = Some sheet'"
    and "distinct (map fst fs)" and "0 < fw" and "0 < fh" and "0 < c"
    and "x < width sheet" and "y < height sheet" and "x div fw < c"
  shows "pix sheet' (x, y) =
           (case map_of fs (y div fh * c + x div fw) of
              Some (Some frame) \<Rightarrow>
                (case resize frame (fw, fh) of
                   Some resized \<Rightarrow> blend (resized (x mod fw, y mod fh)) (pix sheet (x, y))
                 | None \<Rightarrow> pix sheet (x, y))
            | _ \<Rightarrow> pix sheet (x, y))"
  using assms
proof (induction resize blend c fw fh fs sheet rule: paste_frames.induct)
  case (1 resize blend c fw fh sheet)
  then show ?case by simp
next
  case (2 resize blend c fw fh i rest sheet)
  let ?k = "y div fh * c + x div fw"
  from 2 have rest: "paste_frames resize blend c fw fh rest sheet = Some sheet'"
    and d: "distinct (map fst rest)" "i \<notin> fst ` set rest"
    by simp_all
  note IH = "2.IH" [OF rest d(1) "2.prems"(3-8)]
  show ?case
  proof (cases "?k = i")
    case True
    with d(2) have "map_of rest ?k = None" by (simp add: map_of_eq_None_iff)
    with IH True show ?thesis by simp
  next
    case False
    with IH show ?thesis by simp
  qed
next
  case (3 resize blend c fw fh i frame rest sheet)
  let ?k = "y div fh * c + x div fw"
  from "3.prems"(1) obtain resized where rs: "resize frame (fw, fh) = Some resized"
    by (cases "resize frame (fw, fh)") simp_all
  let ?x0 = "i mod c * fw" and ?y0 = "i div c * fh"
  let ?sheet1 = "paste blend sheet \<lparr>height = fh, width = fw, pix = resized\<rparr> (?x0, ?y0)"
  from "3.prems"(1) rs have rest: "paste_frames resize blend c fw fh rest ?sheet1 = Some sheet'"
    by (simp add: Let_def)
  from "3.prems"(2) have d: "distinct (map fst rest)" "i \<notin> fst ` set rest" by simp_all
  have dims: "x < width ?sheet1" "y < height ?sheet1"
    using "3.prems"(6,7) by (simp_all add: shape_paste)
  have IH: "pix sheet' (x, y) =
           (case map_of rest ?k of
              Some (Some frame) \<Rightarrow>
                (case resize frame (fw, fh) of
                   Some resized \<Rightarrow> blend (resized (x mod fw, y mod fh)) (pix ?sheet1 (x, y))
                 | None \<Rightarrow> pix ?sheet1 (x, y))
            | _ \<Rightarrow> pix ?sheet1 (x, y))"
    using "3.IH" [OF rs refl refl refl refl rest d(1) "3.prems"(3-5) dims "3.prems"(8)] .
  have inbox: "(?x0 \<le> x \<and> x < ?x0 + fw \<and> ?y0 \<le> y \<and> y < ?y0 + fh) \<longleftrightarrow> ?k = i"
    using in_cell_iff [OF "3.prems"(3), of "i mod c" x] in_cell_iff [OF "3.prems"(4), of "i div c" y]
      cell_index_iff [OF "3.prems"(5,8), of i "y div fh"]
    by auto
  have off: "x - ?x0 = x mod fw" "y - ?y0 = y mod fh" if "?k = i"
  proof -
    from that inbox have "x div fw = i mod c" "y div fh = i div c"
      using in_cell_iff [OF "3.prems"(3), of "i mod c" x]
        in_cell_iff [OF "3.prems"(4), of "i div c" y] by auto
    then show "x - ?x0 = x mod fw" "y - ?y0 = y mod fh"
      by (metis minus_div_mult_eq_mod)+
  qed
  show ?case
  proof (cases "?k = i")
    case True
    with d(2) have none: "map_of rest ?k = None" by (simp add: map_of_eq_None_iff)
    have "pix ?sheet1 (x, y) = blend (resized (x mod fw, y mod fh)) (pix sheet (x, y))"
      using inbox True off [OF True] "3.prems"(6,7) by (simp add: pix_paste)
    with IH none True rs show ?thesis by simp
  next
    case False
    from inbox False
    have "\<not> (?x0 \<le> x \<and> x < ?x0 + fw \<and> ?y0 \<le> y \<and> y < ?y0 + fh)" by simp
    then have "pix ?sheet1 (x, y) = pix sheet (x, y)"
      by (auto simp add: pix_paste)
    with IH False show ?thesis by (simp split: option.splits)
  qed
qed

lemma rows_ceiling:
  assumes "0 < (c::nat)"
  shows "(n + c - 1) div c = nat \<lceil>(of_nat n / of_nat c :: rat)\<rceil>"
proof -
  define z where "z = (n + c - 1) div c"
  have "z * c \<le> n + c - 1" by (simp add: z_def)
  then have lo: "z * c < n + c" using assms by simp
  have "n + c - 1 < z * c + c"
    using assms dividend_less_div_times [of c "n + c - 1"] by (simp add: z_def)
  then have hi: "n \<le> z * c" using assms by simp
  from lo have "(of_nat (z * c) :: rat) < of_nat (n + c)" by (simp only: of_nat_less_iff)
  then have a: "(of_int (int z) :: rat) - 1 < of_nat n / of_nat c"
    using assms by (simp add: field_simps)
  from hi have "(of_nat n :: rat) \<le> of_nat (z * c)" by (simp only: of_nat_le_iff)
  then have b: "(of_nat n / of_nat c :: rat) \<le> of_int (int z)"
    using assms by (simp add: field_simps)
  from a b have "\<lceil>(of_nat n / of_nat c :: rat)\<rceil> = int z" by (rule ceiling_unique)
  then show ?thesis by (simp add: z_def)
qed

lemma map_of_zip_upt:
  "map_of (zip [0..<length xs] xs) k = (if k < length xs then Some (xs ! k) else None)"
proof (cases "k < length xs")
  case True
  then have "map_of (zip [0..<length xs] xs) ([0..<length xs] ! k) = Some (xs ! k)"
    by (intro map_of_zip_nth) simp_all
  with True show ?thesis by simp
next
  case False
  then have "k \<notin> fst ` set (zip [0..<length xs] xs)"
    by (auto dest: set_zip_leftD)
  with False show ?thesis by (simp add: map_of_eq_None_iff)
qed

lemma paste_frames_Some:
  assumes "\<forall>(i, f) \<in> set fs. \<forall>frame. f = Some frame \<longrightarrow> resize frame (fw, fh) \<noteq> None"
  shows "\<exists>sheet'. paste_frames resize blend c fw fh fs sheet = Some sheet'"
  using assms
proof (induction resize blend c fw fh fs sheet rule: paste_frames.induct)
  case (1 resize blend c fw fh sheet)
  then show ?case by simp
next
  case (2 resize blend c fw fh i rest sheet)
  then show ?case by simp
next
  case (3 resize blend c fw fh i frame rest sheet)
  from "3.prems" obtain resized where rs: "resize frame (fw, fh) = Some resized" by auto
  from "3.prems" have rest: "\<forall>(i, f) \<in> set rest. \<forall>frame. f = Some frame \<longrightarrow> resize frame (fw, fh) \<noteq> None"
    by simp
  from "3.IH" [OF rs refl refl refl refl rest] rs show ?case by (simp add: Let_def)
qed

lemma sprite_sheet_pixels:
  assumes "create_sprite_sheet resize blend image_paths columns fw fh = Some sheet"
  shows "width sheet = columns * fw
     \<and> height sheet = nat \<lceil>(of_nat (length image_paths) / of_nat columns :: rat)\<rceil> * fh
     \<and> (\<forall>x y. x < width sheet \<and> y < height sheet \<longrightarrow>
          pix sheet (x, y) =
            (let i = y div fh * columns + x div fw
             in if i < length image_paths
                then (case image_paths ! i of
                        None \<Rightarrow> (0, 0, 0, 0)
                      | Some frame \<Rightarrow>
                          (case resize frame (fw, fh) of
                             Some resized \<Rightarrow> blend (resized (x mod fw, y mod fh)) (0, 0, 0, 0)
                           | None \<Rightarrow> (0, 0, 0, 0)))
                else (0, 0, 0, 0)))"
proof -
  let ?n = "length image_paths"
  let ?rows = "(?n + columns - 1) div columns"
  let ?sheet0 = "uniform (?rows * fh) (columns * fw) (0, 0, 0, 0) :: pil_image"
  let ?fs = "zip [0..<?n] image_paths"
  from assms have c: "0 < columns"
    by (cases "columns = 0") (simp_all add: create_sprite_sheet_def)
  with assms have pf: "paste_frames resize blend columns fw fh ?fs ?sheet0 = Some sheet"
    by (simp add: create_sprite_sheet_def Let_def)
  from shape_paste_frames [OF pf]
  have dims: "height sheet = ?rows * fh" "width sheet = columns * fw"
    by (simp_all add: uniform_def)
  have d: "distinct (map fst ?fs)" by simp
  have pixel: "pix sheet (x, y) =
            (let i = y div fh * columns + x div fw
             in if i < ?n
                then (case image_paths ! i of
                        None \<Rightarrow> (0, 0, 0, 0)
                      | Some frame \<Rightarrow>
                          (case resize frame (fw, fh) of
                             Some resized \<Rightarrow> blend (resized (x mod fw, y mod fh)) (0, 0, 0, 0)
                           | None \<Rightarrow> (0, 0, 0, 0)))
                else (0, 0, 0, 0))"
    if xy: "x < width sheet" "y < height sheet" for x y
  proof -
    from xy dims have fw: "0 < fw" and fh: "0 < fh"
      by (auto intro: gr0I)
    from xy(1) dims(2) have col: "x div fw < columns"
      by (simp add: less_mult_imp_div_less)
    have x0: "x < width ?sheet0" "y < height ?sheet0"
      using xy dims by (simp_all add: uniform_def)
    from paste_frames_pix [OF pf d fw fh c x0 col]
    show ?thesis
      by (simp add: map_of_zip_upt uniform_def Let_def split: option.splits)
  qed
  have rc: "?rows = nat \<lceil>(of_nat ?n / of_nat columns :: rat)\<rceil>"
    using rows_ceiling [OF c, of ?n] by simp
  from dims(1) have "height sheet = nat \<lceil>(of_nat ?n / of_nat columns :: rat)\<rceil> * fh"
    by (simp only: rc)
  with dims(2) pixel show ?thesis by blast
qed

lemma paste_frames_resized:
  assumes "paste_frames resize blend c fw fh fs sheet = Some sheet'"
    and "(i, Some frame) \<in> set fs"
  shows "resize frame (fw, fh) \<noteq> None"
  using assms
proof (induction resize blend c fw fh fs sheet rule: paste_frames.induct)
  case (1 resize blend c fw fh sheet)
  then show ?case by simp
next
  case (2 resize blend c fw fh j rest sheet)
  then show ?case by auto
next
  case (3 resize blend c fw fh j frame' rest sheet)
  from "3.prems"(1) obtain resized where rs: "resize frame' (fw, fh) = Some resized"
    by (cases "resize frame' (fw, fh)") simp_all
  show ?case
  proof (cases "(i, Some frame) = (j, Some frame')")
    case True
    with rs show ?thesis by simp
  next
    case False
    with "3.prems"(2) have "(i, Some frame) \<in> set rest" by auto
    moreover from "3.prems"(1) rs
    have "paste_frames resize blend c fw fh rest
            (paste blend sheet \<lparr>height = fh, width = fw, pix = resized\<rparr>
               (j mod c * fw, j div c * fh)) = Some sheet'"
      by (simp add: Let_def)
    ultimately show ?thesis
      using "3.IH" [OF rs refl refl refl refl] by blast
  qed
qed

lemma cell_in_sheet:
  assumes "0 < (c::nat)" and "i < n" and "dx < fw" and "dy < fh"
  shows "i mod c * fw + dx < c * fw"
    and "i div c * fh + dy < (n + c - 1) div c * fh"
proof -
  have "i mod c * fw + dx < (i mod c + 1) * fw" using assms(3) by simp
  also have "\<dots> \<le> c * fw"
    using assms(1) by (intro mult_le_mono1) (simp add: Suc_leI)
  finally show "i mod c * fw + dx < c * fw" .
  have "i div c * c \<le> i" by simp
  with assms(2) have "i div c * c + c \<le> n + c - 1" by linarith
  then have "(i div c * c + c) div c \<le> (n + c - 1) div c" by (rule div_le_mono)
  with assms(1) have r: "i div c + 1 \<le> (n + c - 1) div c" by simp
  have "i div c * fh + dy < (i div c + 1) * fh" using assms(4) by simp
  also have "\<dots> \<le> (n + c - 1) div c * fh" using r by (rule mult_le_mono1)
  finally show "i div c * fh + dy < (n + c - 1) div c * fh" .
qed

text \<open>
  Claim C7. The sprite sheet has width \<open>columns * frame_width\<close> and height
  \<open>ceil(n / columns) * frame_height\<close> for \<open>n\<close> frames; frame \<open>i\<close> occupies the cell
  \<open>(i mod columns, i div columns)\<close>: the pixel at offset \<open>(dx, dy)\<close> of that cell is the
  pixel \<open>(dx, dy)\<close> of the resized frame pasted over the transparent fill, and it is the
  fill \<open>(0, 0, 0, 0)\<close> when the path does not exist; every pixel of a cell whose index is
  \<open>n\<close> or more is the fill. With 10 frames and 4 columns the sheet has 4 x 3 cells, and
  the cells 10 and 11, the last two of the bottom row, are fully transparent.
\<close>

theorem sprite_sheet_layout:
  assumes "create_sprite_sheet resize blend image_paths columns fw fh = Some sheet"
  shows "width sheet = columns * fw
     \<and> height sheet = nat \<lceil>(of_nat (length image_paths) / of_nat columns :: rat)\<rceil> * fh
     \<and> (\<forall>i dx dy. i < length image_paths \<and> dx < fw \<and> dy < fh \<longrightarrow>
          (case image_paths ! i of
             None \<Rightarrow> pix sheet (i mod columns * fw + dx, i div columns * fh + dy) = (0, 0, 0, 0)
           | Some frame \<Rightarrow>
               (\<exists>resized. resize frame (fw, fh) = Some resized
                  \<and> pix sheet (i mod columns * fw + dx, i div columns * fh + dy)
                      = blend (resized (dx, dy)) (0, 0, 0, 0))))
     \<and> (\<forall>x y. x < width sheet \<and> y < height sheet
            \<and> length image_paths \<le> y div fh * columns + x div fw \<longrightarrow>
          pix sheet (x, y) = (0, 0, 0, 0))"
proof -
  let ?n = "length image_paths"
  let ?rows = "(?n + columns - 1) div columns"
  note px = sprite_sheet_pixels [OF assms]
  from assms have c: "0 < columns"
    by (cases "columns = 0") (simp_all add: create_sprite_sheet_def)
  with assms have pf: "paste_frames resize blend columns fw fh (zip [0..<?n] image_paths)
      (uniform (?rows * fh) (columns * fw) (0, 0, 0, 0)) = Some sheet"
    by (simp add: create_sprite_sheet_def Let_def)
  from px have w: "width sheet = columns * fw"
    and h: "height sheet = nat \<lceil>(of_nat ?n / of_nat columns :: rat)\<rceil> * fh"
    by simp_all
  have rc: "?rows = nat \<lceil>(of_nat ?n / of_nat columns :: rat)\<rceil>"
    using rows_ceiling [OF c, of ?n] by simp
  have ok: "resize frame (fw, fh) \<noteq> None" if "i < ?n" "image_paths ! i = Some frame" for i frame
  proof -
    from that have "(i, Some frame) \<in> set (zip [0..<?n] image_paths)"
      by (auto simp add: set_zip intro!: exI [of _ i])
    with pf show ?thesis by (rule paste_frames_resized)
  qed
  have cell: "case image_paths ! i of
             None \<Rightarrow> pix sheet (i mod columns * fw + dx, i div columns * fh + dy) = (0, 0, 0, 0)
           | Some frame \<Rightarrow>
               (\<exists>resized. resize frame (fw, fh) = Some resized
                  \<and> pix sheet (i mod columns * fw + dx, i div columns * fh + dy)
                      = blend (resized (dx, dy)) (0, 0, 0, 0))"
    if i: "i < ?n" and dx: "dx < fw" and dy: "dy < fh" for i dx dy
  proof -
    let ?x = "i mod columns * fw + dx" and ?y = "i div columns * fh + dy"
    from cell_in_sheet [OF c i dx dy] have xs: "?x < width sheet" and ys: "?y < height sheet"
      by (simp_all add: w h rc [symmetric])
    from dx have xd: "?x div fw = i mod columns" and xm: "?x mod fw = dx" by simp_all
    from dy have yd: "?y div fh = i div columns" and ym: "?y mod fh = dy" by simp_all
    have idx: "?y div fh * columns + ?x div fw = i" by (simp only: xd yd) simp
    from px xs ys have "pix sheet (?x, ?y) =
            (let i = ?y div fh * columns + ?x div fw
             in if i < ?n
                then (case image_paths ! i of
                        None \<Rightarrow> (0, 0, 0, 0)
                      | Some frame \<Rightarrow>
                          (case resize frame (fw, fh) of
                             Some resized \<Rightarrow> blend (resized (?x mod fw, ?y mod fh)) (0, 0, 0, 0)
                           | None \<Rightarrow> (0, 0, 0, 0)))
                else (0, 0, 0, 0))"
      by blast
    then have "pix sheet (?x, ?y) =
         (case image_paths ! i of
            None \<Rightarrow> (0, 0, 0, 0)
          | Some frame \<Rightarrow>
              (case resize frame (fw, fh) of
                 Some resized \<Rightarrow> blend (resized (dx, dy)) (0, 0, 0, 0)
               | None \<Rightarrow> (0, 0, 0, 0)))"
      unfolding Let_def idx xm ym using i by simp
    with ok [OF i] show ?thesis
      by (auto split: option.splits)
  qed
  have empty: "pix sheet (x, y) = (0, 0, 0, 0)"
    if "x < width sheet" "y < height sheet" "?n \<le> y div fh * columns + x div fw" for x y
    using px that by (simp add: Let_def)
  from w h cell empty show ?thesis by blast
qed

theorem sprite_sheet_layout_witness:
  "\<exists>sheet. create_sprite_sheet resize_nearest blend_opaque numbered_frames 4 2 2 = Some sheet
     \<and> width sheet = 8 \<and> height sheet = 6
     \<and> map (pix sheet) [(4, 4), (5, 4), (6, 4), (7, 4), (4, 5), (5, 5), (6, 5), (7, 5)]
         = replicate 8 (0, 0, 0, 0)
     \<and> pix sheet (0, 0) = (0, 0, 0, 255)
     \<and> pix sheet (7, 1) = (3, 0, 0, 255)
     \<and> pix sheet (0, 2) = (4, 0, 0, 255)
     \<and> pix sheet (3, 5) = (9, 0, 0, 255)"
proof -
  have len: "length numbered_frames = 10" by (simp add: numbered_frames_def)
  have nth: "numbered_frames ! i = Some (uniform 1 1 (int i, 0, 0, 255))" if "i < 10" for i
    using that by (simp add: numbered_frames_def)
  have "\<exists>sheet. paste_frames resize_nearest blend_opaque 4 2 2 (zip [0..<10] numbered_frames)
          (uniform (3 * 2) (4 * 2) (0, 0, 0, 0)) = Some sheet"
    by (rule paste_frames_Some) (auto simp add: resize_nearest_def)
  then obtain sheet where s: "create_sprite_sheet resize_nearest blend_opaque numbered_frames 4 2 2 = Some sheet"
    by (auto simp add: create_sprite_sheet_def len)
  have r: "nat \<lceil>(of_nat (length numbered_frames) / of_nat 4 :: rat)\<rceil> = 3"
    using rows_ceiling [of 4 10] by (simp add: len)
  note L = sprite_sheet_layout [OF s, unfolded r]
  from L have w: "width sheet = 8" and h: "height sheet = 6" by simp_all
  from L have cell: "\<And>i dx dy. i < 10 \<Longrightarrow> dx < 2 \<Longrightarrow> dy < 2 \<Longrightarrow>
      pix sheet (i mod 4 * 2 + dx, i div 4 * 2 + dy) = (int i, 0, 0, 255)"
    by (simp add: len nth resize_nearest_def uniform_def blend_opaque_def pil_alpha_def)
  from L have empty: "\<And>x y. x < 8 \<Longrightarrow> y < 6 \<Longrightarrow> 10 \<le> y div 2 * 4 + x div 2 \<Longrightarrow>
      pix sheet (x, y) = (0, 0, 0, 0)"
    by (simp add: w h len)
  have "pix sheet (4, 4) = (0, 0, 0, 0)" "pix sheet (5, 4) = (0, 0, 0, 0)"
       "pix sheet (6, 4) = (0, 0, 0, 0)" "pix sheet (7, 4) = (0, 0, 0, 0)"
       "pix sheet (4, 5) = (0, 0, 0, 0)" "pix sheet (5, 5) = (0, 0, 0, 0)"
       "pix sheet (6, 5) = (0, 0, 0, 0)" "pix sheet (7, 5) = (0, 0, 0, 0)"
    using empty [of 4 4] empty [of 5 4] empty [of 6 4] empty [of 7 4]
      empty [of 4 5] empty [of 5 5] empty [of 6 5] empty [of 7 5]
    by simp_all
  then have "map (pix sheet) [(4, 4), (5, 4), (6, 4), (7, 4), (4, 5), (5, 5), (6, 5), (7, 5)]
         = replicate 8 (0, 0, 0, 0)"
    by (simp add: numeral_eq_Suc)
  moreover have "pix sheet (0, 0) = (0, 0, 0, 255)" "pix sheet (7, 1) = (3, 0, 0, 255)"
      "pix sheet (0, 2) = (4, 0, 0, 255)" "pix sheet (3, 5) = (9, 0, 0, 255)"
    using cell [of 0 0 0] cell [of 3 1 1] cell [of 4 0 0] cell [of 9 1 1]
    by simp_all
  ultimately show ?thesis using s w h by blast
qed

section \<open>Scenario B and the checkerboard detector\<close>

lemma cells_2_2: "cells 2 2 = [(0, 0), (0, 1), (1, 0), (1, 1)]"
  by (simp add: cells_def upt_rec numeral_2_eq_2)

lemma equal_top_row_not_checkerboard:
  assumes "pix block (0, 0) = pix block (0, 1)"
  shows "\<not> is_checkerboard_block block"
  using assms
  by (simp add: is_checkerboard_block_def Let_def cells_2_2 float_abs_diff_def round_double_0)

lemma block_origins_even:
  assumes "(i, j) \<in> set (block_origins h w)"
  shows "even i \<and> even j \<and> i + 1 < h \<and> j + 1 < w"
  using assms by (auto simp add: block_origins_def range_step2_def)

lemma scenario_B_block:
  assumes "even i" "even j" "i + 1 < 8" "j + 1 < 8"
  shows "\<not> is_checkerboard_block (block_at (scenario_B d) i j)"
proof (rule equal_top_row_not_checkerboard)
  from assms(2) have "(j < 4) = (j + 1 < 4)" by presburger
  with assms(3,4) show "pix (block_at (scenario_B d) i j) (0, 0) = pix (block_at (scenario_B d) i j) (0, 1)"
    by (simp add: block_at_def slice2_def scenario_B_def Let_def)
qed

lemma scenario_B_no_blocks:
  "filter (\<lambda>(i, j). is_checkerboard_block (block_at (scenario_B d) i j)) (block_origins 8 8) = []"
  using block_origins_even [of _ _ 8 8] scenario_B_block [of _ _ d]
  by (auto simp add: filter_empty_conv)

lemma scenario_B_no_pattern: "\<not> has_checkerboard_pattern (scenario_B d)"
proof -
  have "height (scenario_B d) = 8" "width (scenario_B d) = 8" by (simp_all add: scenario_B_def)
  then show ?thesis
    by (simp add: has_checkerboard_pattern_def Let_def scenario_B_no_blocks round_double_0)
qed

lemma scenario_B_corners:
  "corner_samples (scenario_B d) = [scenario_B d, scenario_B d, scenario_B d, scenario_B d]"
  by (simp add: corner_samples_def slice2_def scenario_B_def Let_def)

lemma scenario_B_light_cells:
  "length (filter (\<lambda>(i, j). ((i < 4) = (j < 4)) = d) (cells 8 8)) = 32"
  by (cases d) (simp_all add: cells_def upt_rec)

lemma scenario_B_light:
  "length (filter is_light_200 (pixels_of (scenario_B d))) = 32"
proof -
  have "is_light_200 \<circ> pix (scenario_B d) = (\<lambda>(i, j). ((i < 4) = (j < 4)) = d)"
    by (auto simp add: fun_eq_iff scenario_B_def is_light_200_def white_def black_def)
  then show ?thesis
    by (simp add: pixels_of_def filter_map scenario_B_light_cells scenario_B_def)
qed

lemma double_0_7: "round_double (7 / 10) = 6305039478318694 / 2 ^ 53"
  by (simp add: round_double_eval)

lemma scenario_B_detected: "detect_background_type (scenario_B d) = Inr EdgeFlood"
proof -
  have p: "length (pixels_of (scenario_B d)) = 64"
    by (simp add: pixels_of_def length_cells scenario_B_def)
  then have ne: "pixels_of (scenario_B d) \<noteq> []" by auto
  show ?thesis
    by (simp add: detect_background_type_def Let_def scenario_B_corners scenario_B_no_pattern
        scenario_B_light p ne double_0_7 round_double_half)
qed

lemma fold_no_block:
  assumes "\<forall>(i, j) \<in> set cs. \<not> P i j"
  shows "fold (\<lambda>c bmask. case c of (i, j) \<Rightarrow> if P i j then mark_block bmask i j else bmask) cs m0
           = m0"
  using assms by (induction cs arbitrary: m0) auto

lemma scenario_B_mask:
  assumes "i < 8" "j < 8"
  shows "checkerboard_mask (scenario_B d) (i, j) \<longleftrightarrow> ((i < 4) = (j < 4)) = d"
proof -
  have "\<forall>(i, j) \<in> set (block_origins 8 8). \<not> is_checkerboard_block (block_at (scenario_B d) i j)"
    using block_origins_even [of _ _ 8 8] scenario_B_block [of _ _ d] by auto
  then have "fold (\<lambda>c bmask. case c of (i, j) \<Rightarrow>
                     if is_checkerboard_block (block_at (scenario_B d) i j)
                     then mark_block bmask i j else bmask)
                   (block_origins 8 8) (\<lambda>c. False) = (\<lambda>c. False)"
    by (rule fold_no_block)
  moreover have "height (scenario_B d) = 8" "width (scenario_B d) = 8"
    by (simp_all add: scenario_B_def)
  ultimately have "checkerboard_mask (scenario_B d) (i, j)
      \<longleftrightarrow> (i, j) \<in> set (cells 8 8) \<and> is_light_220 (pix (scenario_B d) (i, j))"
    by (simp add: checkerboard_mask_def Let_def fold_mark)
  with assms show ?thesis
    by (simp add: set_cells scenario_B_def is_light_220_def white_def black_def)
qed

text \<open>
  The counterexample to claim C4 as it is stated: the detector does not classify
  Scenario B as checkerboard, in either arrangement of the quadrants.
\<close>

theorem scenario_B_not_detected_as_checkerboard:
  "detect_background_type (scenario_B True) \<noteq> Inr Checkerboard
   \<and> detect_background_type (scenario_B False) \<noteq> Inr Checkerboard"
  by (simp add: scenario_B_detected)

text \<open>
  Claim C4, amended. The detector looks at the 2x2 blocks at even offsets of each corner
  sample; in Scenario B every such block lies inside one quadrant, so none alternates and
  the checkerboard score is 0. Each corner sample is the whole image, half of its pixels
  are light, which is not more than 0.7, so the detector answers \<open>edge_flood\<close>. The
  checkerboard removal marks no block, and its pass over the light pixels clears the
  white quadrants: every pixel of a white quadrant becomes \<open>(0, 0, 0, 0)\<close> and every
  pixel of a black quadrant stays \<open>(0, 0, 0, 255)\<close>.
\<close>

theorem scenario_B_edge_flood_and_removal:
  "detect_background_type (scenario_B d) = Inr EdgeFlood
   \<and> height (remove_checkerboard_background (scenario_B d)) = 8
   \<and> width (remove_checkerboard_background (scenario_B d)) = 8
   \<and> pixels_of (remove_checkerboard_background (scenario_B d))
     = map (\<lambda>(i, j). if ((i < 4) = (j < 4)) = d then (0, 0, 0, 0) else (0, 0, 0, 255))
         (cells 8 8)"
proof -
  have hw: "height (remove_checkerboard_background (scenario_B d)) = 8"
      "width (remove_checkerboard_background (scenario_B d)) = 8"
    by (simp_all add: remove_checkerboard_background_def Let_def scenario_B_def)
  have "pix (remove_checkerboard_background (scenario_B d)) (i, j)
      = (if ((i < 4) = (j < 4)) = d then (0, 0, 0, 0) else (0, 0, 0, 255))"
    if "i < 8" "j < 8" for i j
    using scenario_B_mask [OF that, of d]
    by (simp add: remove_checkerboard_background_def Let_def transparent_def)
      (simp add: scenario_B_def black_def)
  then have "map (pix (remove_checkerboard_background (scenario_B d))) (cells 8 8)
     = map (\<lambda>(i, j). if ((i < 4) = (j < 4)) = d then (0, 0, 0, 0) else (0, 0, 0, 255))
         (cells 8 8)"
    by (intro map_cong refl) (auto simp add: set_cells)
  with hw scenario_B_detected [of d] show ?thesis
    by (simp add: pixels_of_def)
qed

end
